theory Spec2Isabelle
  imports Complex_Main
begin

section \<open>Numbers, failures and data\<close>

text \<open>
  The program computes with C++ \<^verbatim>\<open>double\<close>, \<^verbatim>\<open>int\<close> and \<^verbatim>\<open>size_t\<close>.

  The model does not fix what \<^verbatim>\<open>double\<close> arithmetic computes. A \<^verbatim>\<open>double\<close> is a value of
  an arbitrary type \<open>'d\<close>, and every model function takes the arithmetic as its first
  argument: a record \<open>A\<close> that holds the constants the source writes (\<^verbatim>\<open>0.0\<close>, \<^verbatim>\<open>1.0\<close>,
  \<^verbatim>\<open>100.0\<close>, \<^verbatim>\<open>1e-10\<close>), the operations it applies (\<^verbatim>\<open>+ - * /\<close>, unary minus,
  \<^verbatim>\<open>std::abs\<close>, \<^verbatim>\<open>std::sqrt\<close>, \<^verbatim>\<open>< ==\<close>) and the two conversions to \<^verbatim>\<open>double\<close> (from
  \<^verbatim>\<open>int\<close> and from \<^verbatim>\<open>size_t\<close>). The model applies them where the source does, in the
  source's order, so a theorem proved for every \<open>A\<close> holds whatever the operations
  round to, also when they produce an infinity or a NaN. Where a property needs a fact
  about the arithmetic it is a stated hypothesis on \<open>A\<close>. \<open>real_arith\<close> is the exact
  arithmetic of the real numbers: the concrete instance at which theorems are applied,
  and the reading under which a result equals a mathematical formula.

  An \<^verbatim>\<open>int\<close> field is an \<^typ>\<open>int\<close>, a \<^verbatim>\<open>size_t\<close> index or length is a \<^typ>\<open>nat\<close>; the
  one conversion that wraps (\<^verbatim>\<open>static_cast<size_t>\<close> of an \<^verbatim>\<open>int\<close>) is written out
  where it occurs.
\<close>

record 'd arith =
  fzero :: 'd
  fone :: 'd
  fhundred :: 'd
  feps :: 'd
  fadd :: "'d \<Rightarrow> 'd \<Rightarrow> 'd"
  fsub :: "'d \<Rightarrow> 'd \<Rightarrow> 'd"
  fmul :: "'d \<Rightarrow> 'd \<Rightarrow> 'd"
  fdiv :: "'d \<Rightarrow> 'd \<Rightarrow> 'd"
  fneg :: "'d \<Rightarrow> 'd"
  fabs :: "'d \<Rightarrow> 'd"
  fsqrt :: "'d \<Rightarrow> 'd"
  fless :: "'d \<Rightarrow> 'd \<Rightarrow> bool"
  feq :: "'d \<Rightarrow> 'd \<Rightarrow> bool"
  ffrom_int :: "int \<Rightarrow> 'd"
  ffrom_size :: "nat \<Rightarrow> 'd"

text \<open>
  \<open>feps\<close> is the literal \<^verbatim>\<open>1e-10\<close> of \<^verbatim>\<open>const double EPSILON\<close> in \<^verbatim>\<open>inverse\<close> and
  \<^verbatim>\<open>determinant\<close>; \<^verbatim>\<open>a > b\<close> is \<open>fless A b a\<close>, \<^verbatim>\<open>a != b\<close> is \<open>\<not> feq A a b\<close>, and the
  literal \<^verbatim>\<open>-1.0\<close> is \<open>fneg A (fone A)\<close>.
\<close>

definition real_arith :: "real arith" where
  "real_arith =
     \<lparr>fzero = 0, fone = 1, fhundred = 100, feps = 1 / 10 ^ 10,
      fadd = (+), fsub = (-), fmul = (*), fdiv = (/),
      fneg = uminus, fabs = abs, fsqrt = sqrt,
      fless = (<), feq = (=),
      ffrom_int = real_of_int, ffrom_size = real\<rparr>"

text \<open>
  Every \<^verbatim>\<open>throw\<close> of the source is a value of \<open>error\<close>, named after the failure
  condition it signals:
  \<^item> \<open>DimensionMismatch\<close>: \<^verbatim>\<open>std::invalid_argument\<close> of \<^verbatim>\<open>operator+\<close>, \<^verbatim>\<open>operator-\<close>, \<^verbatim>\<open>operator*\<close>;
  \<^item> \<open>NotSquare\<close>: \<^verbatim>\<open>std::invalid_argument\<close> of \<^verbatim>\<open>inverse\<close> and \<^verbatim>\<open>determinant\<close>;
  \<^item> \<open>Singular\<close>: \<^verbatim>\<open>std::runtime_error("Matrix is singular and cannot be inverted")\<close>;
  \<^item> \<open>IndexOutOfRange\<close>: \<^verbatim>\<open>std::out_of_range\<close> of the element and row accessors;
  \<^item> \<open>NotTrained\<close>: \<^verbatim>\<open>std::runtime_error("Model has not been trained yet")\<close>;
  \<^item> \<open>InvalidFeatureCount\<close>: \<^verbatim>\<open>std::invalid_argument("Feature vector must have exactly 6 elements")\<close>;
  \<^item> \<open>TooManyFolds\<close>: \<^verbatim>\<open>std::invalid_argument("Number of folds cannot be greater than dataset size")\<close>;
  \<^item> \<open>InvalidVectors\<close>: \<^verbatim>\<open>std::invalid_argument("Vectors must be non-empty and of equal size")\<close>;
  \<^item> \<open>DivisionByZero\<close>: an integer division by zero (undefined behaviour in C++).
\<close>

datatype error =
    DimensionMismatch
  | NotSquare
  | Singular
  | IndexOutOfRange
  | NotTrained
  | InvalidFeatureCount
  | TooManyFolds
  | InvalidVectors
  | DivisionByZero

subsection \<open>DataPoint and Dataset\<close>

record DataPoint =
  vendor :: string
  model :: string
  myct :: int
  mmin :: int
  mmax :: int
  cach :: int
  chmin :: int
  chmax :: int
  prp :: int
  erp :: int

text \<open>\<^verbatim>\<open>getFeatureVector\<close> and \<^verbatim>\<open>getTarget\<close>: \<^verbatim>\<open>static_cast<double>\<close> of the \<^verbatim>\<open>int\<close> fields.\<close>

definition getFeatureVector :: "'d arith \<Rightarrow> DataPoint \<Rightarrow> 'd list" where
  "getFeatureVector A p =
     [ffrom_int A (myct p), ffrom_int A (mmin p), ffrom_int A (mmax p),
      ffrom_int A (cach p), ffrom_int A (chmin p), ffrom_int A (chmax p)]"

definition getTarget :: "'d arith \<Rightarrow> DataPoint \<Rightarrow> 'd" where
  "getTarget A p = ffrom_int A (prp p)"

text \<open>The parameterised constructor of \<^verbatim>\<open>DataPoint\<close>.\<close>

definition DataPoint_new ::
    "string \<Rightarrow> string \<Rightarrow> int \<Rightarrow> int \<Rightarrow> int \<Rightarrow> int \<Rightarrow> int \<Rightarrow> int \<Rightarrow> int \<Rightarrow> int \<Rightarrow> DataPoint" where
  "DataPoint_new v m a b c d e f p q =
     \<lparr>vendor = v, model = m, myct = a, mmin = b, mmax = c, cach = d, chmin = e, chmax = f,
      prp = p, erp = q\<rparr>"

text \<open>
  A \<^verbatim>\<open>Dataset\<close> is its vector of data points (its random generator is used by
  \<^verbatim>\<open>shuffle\<close> only). \<^verbatim>\<open>addDataPoint\<close> appends.
\<close>

type_synonym Dataset = "DataPoint list"

definition addDataPoint :: "Dataset \<Rightarrow> DataPoint \<Rightarrow> Dataset" where
  "addDataPoint ds p = ds @ [p]"

section \<open>Matrix\<close>

text \<open>
  \<^verbatim>\<open>class Matrix\<close>: the rows as a vector of vectors, and the two dimension fields.
  The dimension checks of the source read the fields, never the vectors.
\<close>

record 'd Matrix =
  data :: "'d list list"
  rows :: nat
  cols :: nat

text \<open>\<^verbatim>\<open>Matrix(size_t rows, size_t cols)\<close>: filled with \<^verbatim>\<open>0.0\<close>.\<close>

definition Matrix_new :: "'d arith \<Rightarrow> nat \<Rightarrow> nat \<Rightarrow> 'd Matrix" where
  "Matrix_new A r c = \<lparr>data = replicate r (replicate c (fzero A)), rows = r, cols = c\<rparr>"

text \<open>\<^verbatim>\<open>Matrix(const std::vector<std::vector<double>>& data)\<close>.\<close>

definition Matrix_of :: "'d list list \<Rightarrow> 'd Matrix" where
  "Matrix_of d = \<lparr>data = d, rows = length d, cols = (if d = [] then 0 else length (d ! 0))\<rparr>"

text \<open>
  The invariant of the data model: there are \<open>rows\<close> rows and every row has exactly
  \<open>cols\<close> elements. (The constructor from nested vectors does not check it.)
\<close>

definition well_formed :: "'d Matrix \<Rightarrow> bool" where
  "well_formed m = (length (data m) = rows m \<and> list_all (\<lambda>r. length r = cols m) (data m))"

text \<open>
  \<^verbatim>\<open>operator()(row, col)\<close>, the checked accessor, and \<^verbatim>\<open>data[row][col]\<close>, the raw
  read. Inside the loops of this class every index runs below the very field the
  accessor compares it with, so its check cannot fire there and the model reads and
  writes the cell directly (\<open>cell\<close>, \<open>set_cell\<close>); where the index is a constant of the
  caller (\<^verbatim>\<open>theta(i, 0)\<close> in training) the model uses the checked \<open>Matrix_at\<close>.
\<close>

definition Matrix_at :: "'d Matrix \<Rightarrow> nat \<Rightarrow> nat \<Rightarrow> error + 'd" where
  "Matrix_at m row col =
     (if row \<ge> rows m \<or> col \<ge> cols m then Inl IndexOutOfRange else Inr (data m ! row ! col))"

definition cell :: "'d Matrix \<Rightarrow> nat \<Rightarrow> nat \<Rightarrow> 'd" where
  "cell m i j = data m ! i ! j"

definition set_cell :: "'d Matrix \<Rightarrow> nat \<Rightarrow> nat \<Rightarrow> 'd \<Rightarrow> 'd Matrix" where
  "set_cell m i j v = m\<lparr>data := (data m)[i := (data m ! i)[j := v]]\<rparr>"

text \<open>
  The loop shape shared by the operators:
  \<^verbatim>\<open>Matrix result(r, c); for (i < r) for (j < c) result(i, j) = f(i, j);\<close>
\<close>

definition fill :: "'d arith \<Rightarrow> nat \<Rightarrow> nat \<Rightarrow> (nat \<Rightarrow> nat \<Rightarrow> 'd) \<Rightarrow> 'd Matrix" where
  "fill A r c f =
     fold (\<lambda>i result. fold (\<lambda>j result. set_cell result i j (f i j)) [0..<c] result)
       [0..<r] (Matrix_new A r c)"

definition Matrix_add :: "'d arith \<Rightarrow> 'd Matrix \<Rightarrow> 'd Matrix \<Rightarrow> error + 'd Matrix" where
  "Matrix_add A m other =
     (if rows m \<noteq> rows other \<or> cols m \<noteq> cols other then Inl DimensionMismatch
      else Inr (fill A (rows m) (cols m) (\<lambda>i j. fadd A (cell m i j) (cell other i j))))"

definition Matrix_sub :: "'d arith \<Rightarrow> 'd Matrix \<Rightarrow> 'd Matrix \<Rightarrow> error + 'd Matrix" where
  "Matrix_sub A m other =
     (if rows m \<noteq> rows other \<or> cols m \<noteq> cols other then Inl DimensionMismatch
      else Inr (fill A (rows m) (cols m) (\<lambda>i j. fsub A (cell m i j) (cell other i j))))"

definition Matrix_mul :: "'d arith \<Rightarrow> 'd Matrix \<Rightarrow> 'd Matrix \<Rightarrow> error + 'd Matrix" where
  "Matrix_mul A m other =
     (if cols m \<noteq> rows other then Inl DimensionMismatch
      else Inr (fill A (rows m) (cols other)
             (\<lambda>i j. foldl (\<lambda>sum k. fadd A sum (fmul A (cell m i k) (cell other k j)))
                       (fzero A) [0..<cols m])))"

definition Matrix_scale :: "'d arith \<Rightarrow> 'd Matrix \<Rightarrow> 'd \<Rightarrow> 'd Matrix" where
  "Matrix_scale A m scalar = fill A (rows m) (cols m) (\<lambda>i j. fmul A (cell m i j) scalar)"

text \<open>\<^verbatim>\<open>transpose\<close> writes \<^verbatim>\<open>result(j, i) = data[i][j]\<close> into a \<open>cols \<times> rows\<close> result.\<close>

definition Matrix_transpose :: "'d arith \<Rightarrow> 'd Matrix \<Rightarrow> 'd Matrix" where
  "Matrix_transpose A m =
     fold (\<lambda>i result. fold (\<lambda>j result. set_cell result j i (cell m i j)) [0..<cols m] result)
       [0..<rows m] (Matrix_new A (cols m) (rows m))"

definition Matrix_identity :: "'d arith \<Rightarrow> nat \<Rightarrow> 'd Matrix" where
  "Matrix_identity A n =
     fold (\<lambda>i result. set_cell result i i (fone A)) [0..<n] (Matrix_new A n n)"

subsection \<open>Row operations\<close>

text \<open>The private helpers mutate the receiver; the model returns the new matrix.\<close>

definition swapRows :: "'d Matrix \<Rightarrow> nat \<Rightarrow> nat \<Rightarrow> error + 'd Matrix" where
  "swapRows m row1 row2 =
     (if row1 \<ge> rows m \<or> row2 \<ge> rows m then Inl IndexOutOfRange
      else Inr (m\<lparr>data := (data m)[row1 := data m ! row2, row2 := data m ! row1]\<rparr>))"

definition multiplyRow :: "'d arith \<Rightarrow> 'd Matrix \<Rightarrow> nat \<Rightarrow> 'd \<Rightarrow> error + 'd Matrix" where
  "multiplyRow A m row factor =
     (if row \<ge> rows m then Inl IndexOutOfRange
      else Inr (fold (\<lambda>j m'. set_cell m' row j (fmul A (cell m' row j) factor)) [0..<cols m] m))"

definition addRowMultiple ::
    "'d arith \<Rightarrow> 'd Matrix \<Rightarrow> nat \<Rightarrow> nat \<Rightarrow> 'd \<Rightarrow> error + 'd Matrix" where
  "addRowMultiple A m sourceRow targetRow factor =
     (if sourceRow \<ge> rows m \<or> targetRow \<ge> rows m then Inl IndexOutOfRange
      else Inr (fold (\<lambda>j m'. set_cell m' targetRow j
                        (fadd A (cell m' targetRow j) (fmul A factor (cell m' sourceRow j))))
                  [0..<cols m] m))"

subsection \<open>Inverse\<close>

text \<open>
  The pivot search of \<^verbatim>\<open>inverse\<close> and \<^verbatim>\<open>determinant\<close>:
  \<^verbatim>\<open>maxRow = i; for (k = i + 1; k < n; ++k) if (abs(a(k, i)) > abs(a(maxRow, i))) maxRow = k;\<close>
\<close>

definition find_pivot :: "'d arith \<Rightarrow> 'd Matrix \<Rightarrow> nat \<Rightarrow> nat \<Rightarrow> nat" where
  "find_pivot A a i n =
     fold (\<lambda>k maxRow. if fless A (fabs A (cell a maxRow i)) (fabs A (cell a k i)) then k else maxRow)
       [i + 1..<n] i"

text \<open>The augmented matrix \<open>[A | I]\<close>, built into a zero \<open>n \<times> 2n\<close> matrix.\<close>

definition augment :: "'d arith \<Rightarrow> 'd Matrix \<Rightarrow> 'd Matrix" where
  "augment A m =
     (let n = rows m in
      fold (\<lambda>i augmented.
              set_cell (fold (\<lambda>j augmented. set_cell augmented i j (cell m i j)) [0..<n] augmented)
                i (i + n) (fone A))
        [0..<n] (Matrix_new A n (2 * n)))"

text \<open>
  \<^verbatim>\<open>for (k = 0; k < n; ++k) if (k != i) { factor = augmented(k, i);
  augmented.addRowMultiple(i, k, -factor); }\<close>
\<close>

fun eliminate_column :: "'d arith \<Rightarrow> nat \<Rightarrow> nat list \<Rightarrow> 'd Matrix \<Rightarrow> error + 'd Matrix" where
  "eliminate_column A i [] augmented = Inr augmented"
| "eliminate_column A i (k # ks) augmented =
     (if k \<noteq> i then
        (let factor = cell augmented k i in
         case addRowMultiple A augmented i k (fneg A factor) of
           Inl e \<Rightarrow> Inl e
         | Inr augmented' \<Rightarrow> eliminate_column A i ks augmented')
      else eliminate_column A i ks augmented)"

text \<open>One turn of the loop over the pivot columns: search, test, swap, normalise, eliminate.\<close>

definition pivot_step :: "'d arith \<Rightarrow> nat \<Rightarrow> nat \<Rightarrow> 'd Matrix \<Rightarrow> error + 'd Matrix" where
  "pivot_step A n i augmented =
     (let maxRow = find_pivot A augmented i n in
      if fless A (fabs A (cell augmented maxRow i)) (feps A) then Inl Singular
      else
        case (if maxRow \<noteq> i then swapRows augmented i maxRow else Inr augmented) of
          Inl e \<Rightarrow> Inl e
        | Inr swapped \<Rightarrow>
            (let pivot = cell swapped i i in
             case multiplyRow A swapped i (fdiv A (fone A) pivot) of
               Inl e \<Rightarrow> Inl e
             | Inr normalised \<Rightarrow> eliminate_column A i [0..<n] normalised))"

fun gauss_jordan :: "'d arith \<Rightarrow> nat \<Rightarrow> nat list \<Rightarrow> 'd Matrix \<Rightarrow> error + 'd Matrix" where
  "gauss_jordan A n [] augmented = Inr augmented"
| "gauss_jordan A n (i # is) augmented =
     (case pivot_step A n i augmented of
        Inl e \<Rightarrow> Inl e
      | Inr augmented' \<Rightarrow> gauss_jordan A n is augmented')"

text \<open>The right half of the augmented matrix, copied into an \<open>n \<times> n\<close> result.\<close>

definition right_half :: "'d arith \<Rightarrow> nat \<Rightarrow> 'd Matrix \<Rightarrow> 'd Matrix" where
  "right_half A n augmented = fill A n n (\<lambda>i j. cell augmented i (j + n))"

definition Matrix_inverse :: "'d arith \<Rightarrow> 'd Matrix \<Rightarrow> error + 'd Matrix" where
  "Matrix_inverse A m =
     (if rows m \<noteq> cols m then Inl NotSquare
      else
        (let n = rows m in
         case gauss_jordan A n [0..<n] (augment A m) of
           Inl e \<Rightarrow> Inl e
         | Inr augmented \<Rightarrow> Inr (right_half A n augmented)))"

subsection \<open>Determinant\<close>

text \<open>
  \<^verbatim>\<open>for (k = i + 1; k < rows; ++k) { factor = temp(k, i) / temp(i, i);
  temp.addRowMultiple(i, k, -factor); }\<close>
\<close>

fun eliminate_below :: "'d arith \<Rightarrow> nat \<Rightarrow> nat list \<Rightarrow> 'd Matrix \<Rightarrow> error + 'd Matrix" where
  "eliminate_below A i [] temp = Inr temp"
| "eliminate_below A i (k # ks) temp =
     (let factor = fdiv A (cell temp k i) (cell temp i i) in
      case addRowMultiple A temp i k (fneg A factor) of
        Inl e \<Rightarrow> Inl e
      | Inr temp' \<Rightarrow> eliminate_below A i ks temp')"

text \<open>
  The elimination loop of \<^verbatim>\<open>determinant\<close> over the scratch copy \<open>temp\<close> and the
  accumulator \<open>det\<close>; \<^verbatim>\<open>return 0.0\<close> leaves the loop at once.
\<close>

fun det_loop :: "'d arith \<Rightarrow> nat \<Rightarrow> nat list \<Rightarrow> 'd Matrix \<Rightarrow> 'd \<Rightarrow> error + 'd" where
  "det_loop A n [] temp det = Inr det"
| "det_loop A n (i # is) temp det =
     (let maxRow = find_pivot A temp i n in
      if fless A (fabs A (cell temp maxRow i)) (feps A) then Inr (fzero A)
      else
        case (if maxRow \<noteq> i then
                (case swapRows temp i maxRow of
                   Inl e \<Rightarrow> Inl e
                 | Inr swapped \<Rightarrow> Inr (swapped, fmul A det (fneg A (fone A))))
              else Inr (temp, det)) of
          Inl e \<Rightarrow> Inl e
        | Inr (temp1, det1) \<Rightarrow>
            (let det2 = fmul A det1 (cell temp1 i i) in
             case eliminate_below A i [i + 1..<n] temp1 of
               Inl e \<Rightarrow> Inl e
             | Inr temp2 \<Rightarrow> det_loop A n is temp2 det2))"

text \<open>
  \<^verbatim>\<open>double determinant() const\<close>. The method works on \<^verbatim>\<open>Matrix temp(*this)\<close>; the
  model returns the receiver as the call leaves it together with the result.
\<close>

definition determinant :: "'d arith \<Rightarrow> 'd Matrix \<Rightarrow> 'd Matrix \<times> (error + 'd)" where
  "determinant A m =
     (m,
      if rows m \<noteq> cols m then Inl NotSquare
      else if rows m = 1 then Inr (cell m 0 0)
      else if rows m = 2 then
        Inr (fsub A (fmul A (cell m 0 0) (cell m 1 1)) (fmul A (cell m 0 1) (cell m 1 0)))
      else (let temp = m in det_loop A (rows m) [0..<rows m] temp (fone A)))"

section \<open>LinearRegression: the model and prediction\<close>

record 'd LinearRegression =
  coefficients :: "'d list"
  isTrained :: bool
  trainRMSE :: 'd
  testRMSE :: 'd
  rSquared :: 'd

text \<open>The constructor: six zero coefficients, not trained.\<close>

definition LinearRegression_new :: "'d arith \<Rightarrow> 'd LinearRegression" where
  "LinearRegression_new A =
     \<lparr>coefficients = replicate 6 (fzero A), isTrained = False, trainRMSE = fzero A,
      testRMSE = fzero A, rSquared = fzero A\<rparr>"

text \<open>
  \<^verbatim>\<open>double predict(const std::vector<double>& features) const\<close>: the two guards, then
  the loop \<^verbatim>\<open>for (i = 0; i < 6; ++i) prediction += coefficients[i] * features[i]\<close>.
\<close>

definition predict :: "'d arith \<Rightarrow> 'd LinearRegression \<Rightarrow> 'd list \<Rightarrow> error + 'd" where
  "predict A lr features =
     (if \<not> isTrained lr then Inl NotTrained
      else if length features \<noteq> 6 then Inl InvalidFeatureCount
      else Inr (foldl (\<lambda>prediction i. fadd A prediction (fmul A (coefficients lr ! i) (features ! i)))
                  (fzero A) [0..<6]))"

text \<open>\<^verbatim>\<open>double predict(const DataPoint& point) const\<close>.\<close>

definition predict_point :: "'d arith \<Rightarrow> 'd LinearRegression \<Rightarrow> DataPoint \<Rightarrow> error + 'd" where
  "predict_point A lr point =
     (if \<not> isTrained lr then Inl NotTrained else predict A lr (getFeatureVector A point))"

text \<open>
  The coefficient vector always holds six numbers: the constructor makes six, and training
  resizes it to six before it writes.
\<close>

definition six_coefficients :: "'d LinearRegression \<Rightarrow> bool" where
  "six_coefficients lr = (length (coefficients lr) = 6)"

section \<open>LinearRegression: scoring\<close>

text \<open>
  \<^verbatim>\<open>calculateRMSE\<close>: the guard, the loop
  \<^verbatim>\<open>prediction = predict(testData[i]); actual = testData[i].getTarget();
  error = prediction - actual; sumSquaredErrors += error * error;\<close>
  and \<^verbatim>\<open>sqrt(sumSquaredErrors / n)\<close>, \<open>n\<close> converted to \<^verbatim>\<open>double\<close>. On an empty set
  this is the square root of \<^verbatim>\<open>0.0 / 0.0\<close>, whatever the arithmetic makes of it.
\<close>

fun squared_errors_loop ::
    "'d arith \<Rightarrow> 'd LinearRegression \<Rightarrow> Dataset \<Rightarrow> nat list \<Rightarrow> 'd \<Rightarrow> error + 'd" where
  "squared_errors_loop A lr testData [] sumSquaredErrors = Inr sumSquaredErrors"
| "squared_errors_loop A lr testData (i # is) sumSquaredErrors =
     (case predict_point A lr (testData ! i) of
        Inl e \<Rightarrow> Inl e
      | Inr prediction \<Rightarrow>
          (let actual = getTarget A (testData ! i);
               err = fsub A prediction actual
           in squared_errors_loop A lr testData is (fadd A sumSquaredErrors (fmul A err err))))"

definition calculateRMSE :: "'d arith \<Rightarrow> 'd LinearRegression \<Rightarrow> Dataset \<Rightarrow> error + 'd" where
  "calculateRMSE A lr testData =
     (if \<not> isTrained lr then Inl NotTrained
      else
        (let n = length testData in
         case squared_errors_loop A lr testData [0..<n] (fzero A) of
           Inl e \<Rightarrow> Inl e
         | Inr sumSquaredErrors \<Rightarrow> Inr (fsqrt A (fdiv A sumSquaredErrors (ffrom_size A n)))))"



section \<open>LinearRegression: training\<close>

text \<open>
  \<^verbatim>\<open>createDesignMatrix\<close>, \<^verbatim>\<open>createTargetVector\<close>, and the copy of the target vector
  into an \<open>n \<times> 1\<close> matrix (\<^verbatim>\<open>Matrix y(y_vec.size(), 1); y(i, 0) = y_vec[i]\<close>).
\<close>

definition createDesignMatrix :: "'d arith \<Rightarrow> Dataset \<Rightarrow> 'd Matrix" where
  "createDesignMatrix A ds = fill A (length ds) 6 (\<lambda>i j. getFeatureVector A (ds ! i) ! j)"

definition createTargetVector :: "'d arith \<Rightarrow> Dataset \<Rightarrow> 'd list" where
  "createTargetVector A ds =
     fold (\<lambda>i y. y @ [getTarget A (ds ! i)]) [0..<length ds] []"

definition column_matrix :: "'d arith \<Rightarrow> 'd list \<Rightarrow> 'd Matrix" where
  "column_matrix A y_vec =
     fold (\<lambda>i y. set_cell y i 0 (y_vec ! i)) [0..<length y_vec] (Matrix_new A (length y_vec) 1)"

text \<open>
  The matrix pipeline of \<^verbatim>\<open>train\<close>, up to \<open>theta\<close>: every operator may throw, and the
  first throw leaves the \<^verbatim>\<open>try\<close> block.
\<close>

definition normal_equation :: "'d arith \<Rightarrow> Dataset \<Rightarrow> error + 'd Matrix" where
  "normal_equation A trainData =
     (let X = createDesignMatrix A trainData;
          y_vec = createTargetVector A trainData;
          y = column_matrix A y_vec;
          Xt = Matrix_transpose A X
      in case Matrix_mul A Xt X of
           Inl e \<Rightarrow> Inl e
         | Inr XtX \<Rightarrow>
             (case Matrix_inverse A XtX of
                Inl e \<Rightarrow> Inl e
              | Inr XtX_inv \<Rightarrow>
                  (case Matrix_mul A Xt y of
                     Inl e \<Rightarrow> Inl e
                   | Inr Xty \<Rightarrow> Matrix_mul A XtX_inv Xty)))"

text \<open>The matrix pipeline of \<^verbatim>\<open>trainWithRegularization\<close>.\<close>

definition ridge_equation :: "'d arith \<Rightarrow> Dataset \<Rightarrow> 'd \<Rightarrow> error + 'd Matrix" where
  "ridge_equation A trainData lambda =
     (let X = createDesignMatrix A trainData;
          y_vec = createTargetVector A trainData;
          y = column_matrix A y_vec;
          Xt = Matrix_transpose A X
      in case Matrix_mul A Xt X of
           Inl e \<Rightarrow> Inl e
         | Inr XtX \<Rightarrow>
             (let I = Matrix_identity A (rows XtX) in
              case Matrix_add A XtX (Matrix_scale A I lambda) of
                Inl e \<Rightarrow> Inl e
              | Inr regularized \<Rightarrow>
                  (case Matrix_inverse A regularized of
                     Inl e \<Rightarrow> Inl e
                   | Inr regularized_inv \<Rightarrow>
                       (case Matrix_mul A Xt y of
                          Inl e \<Rightarrow> Inl e
                        | Inr Xty \<Rightarrow> Matrix_mul A regularized_inv Xty))))"

text \<open>
  The rest of the \<^verbatim>\<open>try\<close> block mutates the model. Each function returns the model
  as it stands when the block is left, and the exception if one was thrown.
  \<^verbatim>\<open>coefficients.clear(); coefficients.resize(6);
  for (i = 0; i < 6; ++i) coefficients[i] = theta(i, 0);\<close>
\<close>

fun extract_coefficients ::
    "'d Matrix \<Rightarrow> nat list \<Rightarrow> 'd LinearRegression \<Rightarrow> 'd LinearRegression \<times> error option" where
  "extract_coefficients theta [] lr = (lr, None)"
| "extract_coefficients theta (i # is) lr =
     (case Matrix_at theta i 0 of
        Inl e \<Rightarrow> (lr, Some e)
      | Inr v \<Rightarrow> extract_coefficients theta is (lr\<lparr>coefficients := (coefficients lr)[i := v]\<rparr>))"

definition install_coefficients ::
    "'d arith \<Rightarrow> 'd LinearRegression \<Rightarrow> Dataset \<Rightarrow> 'd Matrix
       \<Rightarrow> 'd LinearRegression \<times> error option" where
  "install_coefficients A lr trainData theta =
     (case extract_coefficients theta [0..<6] (lr\<lparr>coefficients := replicate 6 (fzero A)\<rparr>) of
        (lr1, Some e) \<Rightarrow> (lr1, Some e)
      | (lr1, None) \<Rightarrow>
          (let lr2 = lr1\<lparr>isTrained := True\<rparr> in
           case calculateRMSE A lr2 trainData of
             Inl e \<Rightarrow> (lr2, Some e)
           | Inr rmse \<Rightarrow> (lr2\<lparr>trainRMSE := rmse\<rparr>, None)))"

text \<open>
  \<^verbatim>\<open>bool train(const Dataset&)\<close> and \<^verbatim>\<open>bool trainWithRegularization(const Dataset&,
  double)\<close>: the returned flag and the model after the call. The \<^verbatim>\<open>catch\<close> clause
  turns every exception of the block into \<^verbatim>\<open>return false\<close>.
\<close>

definition train ::
    "'d arith \<Rightarrow> 'd LinearRegression \<Rightarrow> Dataset \<Rightarrow> bool \<times> 'd LinearRegression" where
  "train A lr trainData =
     (if trainData = [] then (False, lr)
      else
        case (case normal_equation A trainData of
                Inl e \<Rightarrow> (lr, Some e)
              | Inr theta \<Rightarrow> install_coefficients A lr trainData theta) of
          (lr', None) \<Rightarrow> (True, lr')
        | (lr', Some e) \<Rightarrow> (False, lr'))"

definition trainWithRegularization ::
    "'d arith \<Rightarrow> 'd LinearRegression \<Rightarrow> Dataset \<Rightarrow> 'd \<Rightarrow> bool \<times> 'd LinearRegression" where
  "trainWithRegularization A lr trainData lambda =
     (if trainData = [] then (False, lr)
      else
        case (case ridge_equation A trainData lambda of
                Inl e \<Rightarrow> (lr, Some e)
              | Inr theta \<Rightarrow> install_coefficients A lr trainData theta) of
          (lr', None) \<Rightarrow> (True, lr')
        | (lr', Some e) \<Rightarrow> (False, lr'))"

section \<open>LinearRegression: cross-validation\<close>

text \<open>
  \<^verbatim>\<open>static_cast<size_t>(folds)\<close>, and the conversion of the \<^verbatim>\<open>int\<close> operand in
  \<^verbatim>\<open>data.size() / folds\<close>, \<^verbatim>\<open>fold * foldSize\<close> and \<^verbatim>\<open>(fold + 1) * foldSize\<close>: the value
  modulo \<open>2^64\<close>. Inside the loop \<open>0 \<le> fold < folds \<le> data.size()\<close>, so the products
  stay below \<open>data.size()\<close> and do not wrap.
\<close>

definition size_t_of_int :: "int \<Rightarrow> nat" where
  "size_t_of_int x = nat (x mod 2 ^ 64)"

text \<open>
  The inner loop over \<open>i\<close>, for the fold \<open>fld\<close>: the three branches that send
  \<^verbatim>\<open>data[i]\<close> to the validation set, to the validation set (last fold), or to the
  training set. The result is \<open>(trainSet, validSet)\<close>.
\<close>

definition split_fold :: "Dataset \<Rightarrow> int \<Rightarrow> nat \<Rightarrow> int \<Rightarrow> Dataset \<times> Dataset" where
  "split_fold ds folds foldSize fld =
     fold (\<lambda>i (trainSet, validSet).
             if i \<ge> size_t_of_int fld * foldSize \<and> i < size_t_of_int (fld + 1) * foldSize
                \<and> fld < folds - 1
             then (trainSet, addDataPoint validSet (ds ! i))
             else if fld = folds - 1 \<and> i \<ge> size_t_of_int fld * foldSize
             then (trainSet, addDataPoint validSet (ds ! i))
             else (addDataPoint trainSet (ds ! i), validSet))
       [0..<length ds] ([], [])"

text \<open>
  The loop over the folds: a fresh model is trained on the training set; when training
  succeeds its RMSE on the validation set is appended to \<open>foldRMSEs\<close>, otherwise the
  fold leaves no trace.
\<close>

fun folds_loop ::
    "'d arith \<Rightarrow> Dataset \<Rightarrow> int \<Rightarrow> nat \<Rightarrow> int list \<Rightarrow> 'd list \<Rightarrow> error + 'd list" where
  "folds_loop A ds folds foldSize [] foldRMSEs = Inr foldRMSEs"
| "folds_loop A ds folds foldSize (fld # rest) foldRMSEs =
     (case split_fold ds folds foldSize fld of
        (trainSet, validSet) \<Rightarrow>
          (case train A (LinearRegression_new A) trainSet of
             (True, tempModel) \<Rightarrow>
               (case calculateRMSE A tempModel validSet of
                  Inl e \<Rightarrow> Inl e
                | Inr foldRMSE \<Rightarrow> folds_loop A ds folds foldSize rest (foldRMSEs @ [foldRMSE]))
           | (False, tempModel) \<Rightarrow> folds_loop A ds folds foldSize rest foldRMSEs))"

text \<open>
  \<^verbatim>\<open>double crossValidate(const Dataset& data, int folds) const\<close>. The receiver is not
  read. The fold counter runs over \<open>0, \<dots>, folds - 1\<close>; \<^verbatim>\<open>std::accumulate\<close> sums from
  the left starting at \<^verbatim>\<open>0.0\<close>; the error indicator is the literal \<^verbatim>\<open>-1.0\<close>.
\<close>

definition crossValidate :: "'d arith \<Rightarrow> Dataset \<Rightarrow> int \<Rightarrow> error + 'd" where
  "crossValidate A ds folds =
     (if length ds < size_t_of_int folds then Inl TooManyFolds
      else if size_t_of_int folds = 0 then Inl DivisionByZero
      else
        (let foldSize = length ds div size_t_of_int folds in
         case folds_loop A ds folds foldSize (map int [0..<nat folds]) [] of
           Inl e \<Rightarrow> Inl e
         | Inr foldRMSEs \<Rightarrow>
             if foldRMSEs = [] then Inr (fneg A (fone A))
             else Inr (fdiv A (foldl (fadd A) (fzero A) foldRMSEs)
                         (ffrom_size A (length foldRMSEs)))))"

section \<open>Evaluator: metrics over two sequences\<close>

definition calculateMAPE :: "'d arith \<Rightarrow> 'd list \<Rightarrow> 'd list \<Rightarrow> error + 'd" where
  "calculateMAPE A actual predicted =
     (if length actual \<noteq> length predicted \<or> actual = [] then Inl InvalidVectors
      else
        (case fold (\<lambda>i (sumPercentageError, validCount).
                      if \<not> feq A (actual ! i) (fzero A) then
                        (let percentageError =
                               fmul A (fabs A (fdiv A (fsub A (actual ! i) (predicted ! i)) (actual ! i)))
                                 (fhundred A)
                         in (fadd A sumPercentageError percentageError, validCount + 1))
                      else (sumPercentageError, validCount))
                [0..<length actual] (fzero A, 0 :: nat) of
           (sumPercentageError, validCount) \<Rightarrow>
             Inr (if validCount > 0 then fdiv A sumPercentageError (ffrom_size A validCount)
                  else fzero A)))"


section \<open>Notions used to state the properties\<close>

subsection \<open>Facts about the arithmetic\<close>

text \<open>
  The comparison \<^verbatim>\<open><\<close> never holds between a value and itself and is transitive. This
  is true of \<^verbatim>\<open>double\<close> (a comparison with a NaN is false) and of the real numbers.
\<close>

definition strict_order :: "'d arith \<Rightarrow> bool" where
  "strict_order A =
     ((\<forall>x. \<not> fless A x x) \<and> (\<forall>x y z. fless A x y \<and> fless A y z \<longrightarrow> fless A x z))"

text \<open>
  What the arithmetic keeps from being below zero: zero itself, a square, the sum of two
  such values, the quotient of such a value by a positive count, and its square root;
  \<^verbatim>\<open>-1.0\<close> compares equal to itself, and a value that compares equal to \<^verbatim>\<open>-1.0\<close>
  is below zero. All of it is true of \<^verbatim>\<open>double\<close> (where a value that is not below zero
  is a number \<open>\<ge> 0\<close>, an infinity or a NaN) and of the real numbers.
\<close>

definition sign_laws :: "'d arith \<Rightarrow> bool" where
  "sign_laws A =
     (\<not> fless A (fzero A) (fzero A)
      \<and> (\<forall>x. \<not> fless A (fmul A x x) (fzero A))
      \<and> (\<forall>x y. \<not> fless A x (fzero A) \<and> \<not> fless A y (fzero A)
             \<longrightarrow> \<not> fless A (fadd A x y) (fzero A))
      \<and> (\<forall>x n. \<not> fless A x (fzero A) \<and> 0 < n
             \<longrightarrow> \<not> fless A (fdiv A x (ffrom_size A n)) (fzero A))
      \<and> (\<forall>x. \<not> fless A x (fzero A) \<longrightarrow> \<not> fless A (fsqrt A x) (fzero A))
      \<and> feq A (fneg A (fone A)) (fneg A (fone A))
      \<and> (\<forall>x. feq A x (fneg A (fone A)) \<longrightarrow> fless A x (fzero A)))"

subsection \<open>Rows\<close>

text \<open>
  Three operations on rows, as linear algebra states them: exchange the rows \<open>i\<close> and
  \<open>p\<close> of a list of rows; multiply every entry of a row by \<open>f\<close>; add \<open>f\<close> times the
  row \<open>source\<close> to the row \<open>target\<close>, entry by entry.
\<close>

definition exchanged :: "'d list list \<Rightarrow> nat \<Rightarrow> nat \<Rightarrow> 'd list list" where
  "exchanged rs i p = rs[i := rs ! p, p := rs ! i]"

definition scaled :: "'d arith \<Rightarrow> 'd \<Rightarrow> 'd list \<Rightarrow> 'd list" where
  "scaled A f r = map (\<lambda>x. fmul A x f) r"

definition plus_multiple :: "'d arith \<Rightarrow> 'd \<Rightarrow> 'd list \<Rightarrow> 'd list \<Rightarrow> 'd list" where
  "plus_multiple A f target source = map (\<lambda>(x, y). fadd A x (fmul A f y)) (zip target source)"

subsection \<open>Pivot columns\<close>

text \<open>
  One Gauss-Jordan step on column \<open>i\<close> of an augmented matrix with \<open>n\<close> rows, stated on
  whole rows: the pivot row \<open>p\<close> is exchanged with row \<open>i\<close>; the new row \<open>i\<close> is divided
  by the pivot (multiplied by \<open>1 / pivot\<close>); from every other row \<open>k\<close> its entry in column
  \<open>i\<close> times the new row \<open>i\<close> is subtracted.
\<close>

definition gauss_jordan_step :: "'d arith \<Rightarrow> nat \<Rightarrow> nat \<Rightarrow> 'd Matrix \<Rightarrow> 'd Matrix" where
  "gauss_jordan_step A n i a =
     (let p = find_pivot A a i n;
          sw = exchanged (data a) i p;
          pivot = sw ! i ! i;
          unit_row = scaled A (fdiv A (fone A) pivot) (sw ! i)
      in a\<lparr>data := map (\<lambda>k. if k = i then unit_row
                               else plus_multiple A (fneg A (sw ! k ! i)) (sw ! k) unit_row)
                      [0..<n]\<rparr>)"

text \<open>
  The augmented matrix after the steps on the columns \<open>0, \<dots>, i - 1\<close>, the row the pivot
  search picks in column \<open>i\<close> of it, and the magnitude of the entry found there.
\<close>

fun reduced :: "'d arith \<Rightarrow> nat \<Rightarrow> 'd Matrix \<Rightarrow> nat \<Rightarrow> 'd Matrix" where
  "reduced A n a 0 = a"
| "reduced A n a (Suc i) = gauss_jordan_step A n i (reduced A n a i)"

definition inverse_pivot_row :: "'d arith \<Rightarrow> 'd Matrix \<Rightarrow> nat \<Rightarrow> nat" where
  "inverse_pivot_row A m i = find_pivot A (reduced A (rows m) (augment A m) i) i (rows m)"

definition inverse_pivot_magnitude :: "'d arith \<Rightarrow> 'd Matrix \<Rightarrow> nat \<Rightarrow> 'd" where
  "inverse_pivot_magnitude A m i =
     fabs A (cell (reduced A (rows m) (augment A m) i) (inverse_pivot_row A m i) i)"

text \<open>The augmented matrix \<open>[A | I]\<close>: row \<open>i\<close> of the matrix, then row \<open>i\<close> of the identity.\<close>

definition beside_identity :: "'d arith \<Rightarrow> 'd Matrix \<Rightarrow> 'd list list" where
  "beside_identity A m =
     map (\<lambda>i. data m ! i @ map (\<lambda>j. if j = i then fone A else fzero A) [0..<rows m])
       [0..<rows m]"

text \<open>
  One step of the elimination of \<^verbatim>\<open>determinant\<close> on column \<open>i\<close>, stated on whole rows:
  the pivot row is exchanged with row \<open>i\<close>; from every row \<open>k\<close> below, the quotient of its
  entry in column \<open>i\<close> by the pivot, times row \<open>i\<close>, is subtracted.
\<close>

definition elimination_step :: "'d arith \<Rightarrow> nat \<Rightarrow> nat \<Rightarrow> 'd Matrix \<Rightarrow> 'd Matrix" where
  "elimination_step A n i t =
     (let p = find_pivot A t i n;
          sw = exchanged (data t) i p
      in t\<lparr>data := map (\<lambda>k. if k \<le> i then sw ! k
                               else plus_multiple A (fneg A (fdiv A (sw ! k ! i) (sw ! i ! i)))
                                      (sw ! k) (sw ! i))
                      [0..<n]\<rparr>)"

text \<open>
  The scratch copy of \<^verbatim>\<open>determinant\<close> after the steps on the columns \<open>0, \<dots>, i - 1\<close>, the
  row the pivot search picks in column \<open>i\<close> of it, and the pivot: the entry of that row in
  column \<open>i\<close>, which the exchange brings onto the diagonal.
\<close>

fun eliminated :: "'d arith \<Rightarrow> nat \<Rightarrow> 'd Matrix \<Rightarrow> nat \<Rightarrow> 'd Matrix" where
  "eliminated A n m 0 = m"
| "eliminated A n m (Suc i) = elimination_step A n i (eliminated A n m i)"

definition pivot_row :: "'d arith \<Rightarrow> nat \<Rightarrow> 'd Matrix \<Rightarrow> nat \<Rightarrow> nat" where
  "pivot_row A n m i = find_pivot A (eliminated A n m i) i n"

definition pivot_value :: "'d arith \<Rightarrow> nat \<Rightarrow> 'd Matrix \<Rightarrow> nat \<Rightarrow> 'd" where
  "pivot_value A n m i = cell (eliminated A n m i) (pivot_row A n m i) i"

text \<open>
  The accumulated product: it starts at \<^verbatim>\<open>1.0\<close>; at column \<open>i\<close> it is multiplied by
  \<^verbatim>\<open>-1.0\<close> when rows are exchanged, then by the pivot.
\<close>

definition pivot_product :: "'d arith \<Rightarrow> nat \<Rightarrow> 'd Matrix \<Rightarrow> 'd" where
  "pivot_product A n m =
     foldl (\<lambda>det i. fmul A (if pivot_row A n m i \<noteq> i then fmul A det (fneg A (fone A)) else det)
                       (pivot_value A n m i))
       (fone A) [0..<n]"

subsection \<open>Scores\<close>

text \<open>
  The value a trained model predicts for a data point: the six products
  \<open>coefficient \<times> feature\<close> added up from the left, starting at zero. The root mean
  squared error of a model on a set: the squared errors added up from the left, divided
  by the size of the set, under the square root.
\<close>

definition prediction :: "'d arith \<Rightarrow> 'd LinearRegression \<Rightarrow> DataPoint \<Rightarrow> 'd" where
  "prediction A lr p =
     foldl (\<lambda>s i. fadd A s (fmul A (coefficients lr ! i) (getFeatureVector A p ! i)))
       (fzero A) [0..<6]"

definition squared_error :: "'d arith \<Rightarrow> 'd LinearRegression \<Rightarrow> DataPoint \<Rightarrow> 'd" where
  "squared_error A lr p =
     fmul A (fsub A (prediction A lr p) (getTarget A p)) (fsub A (prediction A lr p) (getTarget A p))"

definition rmse :: "'d arith \<Rightarrow> 'd LinearRegression \<Rightarrow> Dataset \<Rightarrow> 'd" where
  "rmse A lr ds =
     fsqrt A (fdiv A (foldl (fadd A) (fzero A) (map (squared_error A lr) ds))
                (ffrom_size A (length ds)))"




text \<open>
  The indices of the non-zero actual values, and the mean absolute percentage error
  over them, for real numbers.
\<close>

definition nonzero_indices :: "real list \<Rightarrow> nat list" where
  "nonzero_indices actual = filter (\<lambda>i. actual ! i \<noteq> 0) [0..<length actual]"

subsection \<open>Cross-validation\<close>

text \<open>
  The pairs \<open>(trainSet, validSet)\<close> that \<^verbatim>\<open>crossValidate\<close> builds, one per fold in
  loop order, with its fold size \<open>data.size() / folds\<close>; and the RMSEs of the folds whose
  training succeeds, in loop order.
\<close>

definition foldSets :: "Dataset \<Rightarrow> int \<Rightarrow> (Dataset \<times> Dataset) list" where
  "foldSets ds folds =
     map (split_fold ds folds (length ds div size_t_of_int folds)) (map int [0..<nat folds])"

definition successful_fold_rmses :: "'d arith \<Rightarrow> Dataset \<Rightarrow> int \<Rightarrow> 'd list" where
  "successful_fold_rmses A ds folds =
     concat (map (\<lambda>(trainSet, validSet).
                    case train A (LinearRegression_new A) trainSet of
                      (True, tempModel) \<Rightarrow> [rmse A tempModel validSet]
                    | (False, tempModel) \<Rightarrow> [])
               (foldSets ds folds))"

section \<open>The exact arithmetic\<close>

text \<open>
  Evaluation at \<open>real_arith\<close> computes with rational numbers; the square root stays a
  symbol.
\<close>

declare root_def [code del]

lemma real_arith_simps [simp]:
  "fzero real_arith = 0" "fone real_arith = 1" "fhundred real_arith = 100"
  "feps real_arith = 1 / 10 ^ 10"
  "fadd real_arith = (+)" "fsub real_arith = (-)" "fmul real_arith = (*)" "fdiv real_arith = (/)"
  "fneg real_arith = uminus" "fabs real_arith = abs" "fsqrt real_arith = sqrt"
  "fless real_arith = (<)" "feq real_arith = (=)"
  "ffrom_int real_arith = real_of_int" "ffrom_size real_arith = real"
  by (simp_all add: real_arith_def)

lemma strict_order_real: "strict_order real_arith"
  by (auto simp: strict_order_def)

lemma sign_laws_real: "sign_laws real_arith"
  by (auto simp: sign_laws_def add_nonneg_nonneg not_less divide_nonneg_nonneg)

section \<open>Prediction\<close>

lemma upt_6: "[0..<6] = [0, 1, 2, 3, 4, 5]"
  by (simp add: upt_conv_Cons)

lemma lessThan_6: "{..<6::nat} = {0, 1, 2, 3, 4, 5}"
  by auto

lemma length_getFeatureVector: "length (getFeatureVector A p) = 6"
  by (simp add: getFeatureVector_def)

lemma six_coefficients_new: "six_coefficients (LinearRegression_new A)"
  by (simp add: six_coefficients_def LinearRegression_new_def)

text \<open>
  C6. In exact arithmetic, a trained model applied to six features returns
  \<open>\<Sum>i<6. coefficient i * feature i\<close>, the dot product, and nothing else is added: on
  the all-zero feature sequence the prediction is 0.
\<close>

theorem predict_is_dot_product:
  assumes "isTrained lr" and "six_coefficients lr" and "length features = 6"
  shows "predict real_arith lr features = Inr (\<Sum>i<6. coefficients lr ! i * features ! i)
       \<and> predict real_arith lr (replicate 6 0) = Inr 0"
proof -
  have "foldl (\<lambda>prediction i. prediction + coefficients lr ! i * fs ! i) 0 [0..<6]
        = (\<Sum>i<6. coefficients lr ! i * fs ! i)" for fs :: "real list"
    by (simp add: upt_6 lessThan_6)
  with assms show ?thesis
    by (simp add: predict_def upt_6)
qed

theorem predict_is_dot_product_witness:
  "predict real_arith \<lparr>coefficients = [1, 2, 3, 4, 5, 6], isTrained = True, trainRMSE = 0,
      testRMSE = 0, rSquared = 0\<rparr> [1, 1, 1, 1, 1, 2] = Inr 27"
proof -
  let ?lr = "\<lparr>coefficients = [1, 2, 3, 4, 5, 6::real], isTrained = True, trainRMSE = 0,
      testRMSE = 0, rSquared = 0\<rparr>"
  have "isTrained ?lr" "six_coefficients ?lr" "length [1, 1, 1, 1, 1, 2::real] = 6"
    by (simp_all add: six_coefficients_def)
  from predict_is_dot_product [OF this] show ?thesis
    by (simp add: lessThan_6)
qed

text \<open>
  C7. Before training, \<^verbatim>\<open>predict\<close> fails with \<open>NotTrained\<close> whatever it is given
  (a feature sequence or a data point); a trained model given a feature sequence whose
  length is not 6 fails with \<open>InvalidFeatureCount\<close>; a trained model given six features
  returns a number. This holds in every arithmetic.
\<close>

theorem predict_failures:
  "(\<not> isTrained lr \<longrightarrow>
      predict A lr features = Inl NotTrained \<and> predict_point A lr point = Inl NotTrained)
   \<and> (isTrained lr \<and> length features \<noteq> 6 \<longrightarrow> predict A lr features = Inl InvalidFeatureCount)
   \<and> (isTrained lr \<and> length features = 6 \<longrightarrow> (\<exists>v. predict A lr features = Inr v))
   \<and> (isTrained lr \<longrightarrow> (\<exists>v. predict_point A lr point = Inr v))"
  by (simp add: predict_def predict_point_def length_getFeatureVector)

theorem predict_failures_witness:
  "predict real_arith (LinearRegression_new real_arith) [1, 2, 3, 4, 5, 6] = Inl NotTrained
   \<and> predict real_arith ((LinearRegression_new real_arith)\<lparr>isTrained := True\<rparr>) [1, 2, 3, 4, 5]
       = Inl InvalidFeatureCount
   \<and> (\<exists>v. predict real_arith ((LinearRegression_new real_arith)\<lparr>isTrained := True\<rparr>)
             [1, 2, 3, 4, 5, 6] = Inr v)
   \<and> predict_point real_arith (LinearRegression_new real_arith)
       (DataPoint_new [] [] 1 2 3 4 5 6 7 8) = Inl NotTrained
   \<and> (\<exists>v. predict_point real_arith ((LinearRegression_new real_arith)\<lparr>isTrained := True\<rparr>)
             (DataPoint_new [] [] 1 2 3 4 5 6 7 8) = Inr v)"
proof -
  let ?new = "LinearRegression_new real_arith"
  let ?p = "DataPoint_new [] [] 1 2 3 4 5 6 7 8"
  have a: "\<not> isTrained ?new"
    by (simp add: LinearRegression_new_def)
  have b: "isTrained (?new\<lparr>isTrained := True\<rparr>)"
    by simp
  have c: "length [1, 2, 3, 4, 5::real] \<noteq> 6" and d: "length [1, 2, 3, 4, 5, 6::real] = 6"
    by simp_all
  from predict_failures [of ?new real_arith "[1, 2, 3, 4, 5, 6]" ?p] a
  have 1: "predict real_arith ?new [1, 2, 3, 4, 5, 6] = Inl NotTrained"
    by blast
  from predict_failures [of "?new\<lparr>isTrained := True\<rparr>" real_arith "[1, 2, 3, 4, 5]" ?p] b c
  have 2: "predict real_arith (?new\<lparr>isTrained := True\<rparr>) [1, 2, 3, 4, 5] = Inl InvalidFeatureCount"
    by blast
  from predict_failures [of "?new\<lparr>isTrained := True\<rparr>" real_arith "[1, 2, 3, 4, 5, 6]" ?p] b d
  have 3: "\<exists>v. predict real_arith (?new\<lparr>isTrained := True\<rparr>) [1, 2, 3, 4, 5, 6] = Inr v"
    by blast
  from predict_failures [of ?new real_arith "[]" ?p] a
  have 4: "predict_point real_arith ?new ?p = Inl NotTrained"
    by blast
  from predict_failures [of "?new\<lparr>isTrained := True\<rparr>" real_arith "[]" ?p] b
  have 5: "\<exists>v. predict_point real_arith (?new\<lparr>isTrained := True\<rparr>) ?p = Inr v"
    by blast
  from 1 2 3 4 5 show ?thesis by blast
qed

section \<open>Matrix: dimensions and shape are preserved\<close>

lemma fold_preserves: "(\<And>x s. P s \<Longrightarrow> P (f x s)) \<Longrightarrow> P s \<Longrightarrow> P (fold f xs s)"
  by (induction xs arbitrary: s) auto

lemma dims_set_cell [simp]: "rows (set_cell m i j v) = rows m" "cols (set_cell m i j v) = cols m"
  by (simp_all add: set_cell_def)

lemma dims_Matrix_new [simp]: "rows (Matrix_new A r c) = r" "cols (Matrix_new A r c) = c"
  by (simp_all add: Matrix_new_def)

lemma dims_fold_set_cell:
  "rows (fold (\<lambda>j m'. set_cell m' (r j m') (c j m') (v j m')) js m) = rows m \<and>
   cols (fold (\<lambda>j m'. set_cell m' (r j m') (c j m') (v j m')) js m) = cols m"
  by (rule fold_preserves [where P = "\<lambda>s. rows s = rows m \<and> cols s = cols m"]) simp_all

lemma dims_augment [simp]:
  "rows (augment A m) = rows m" "cols (augment A m) = 2 * rows m"
proof -
  let ?P = "\<lambda>s. rows s = rows m \<and> cols s = 2 * rows m"
  have "?P (augment A m)"
    unfolding augment_def Let_def
  proof (rule fold_preserves [where P = ?P])
    fix x and s :: "'a Matrix" assume "?P s"
    then show "?P (set_cell (fold (\<lambda>j augmented. set_cell augmented x j (cell m x j)) [0..<rows m] s)
                     x (x + rows m) (fone A))"
      using dims_fold_set_cell [of "\<lambda>j m'. x" "\<lambda>j m'. j" "\<lambda>j m'. cell m x j" "[0..<rows m]" s]
      by simp
  qed simp
  then show "rows (augment A m) = rows m" "cols (augment A m) = 2 * rows m" by simp_all
qed

lemma well_formed_set_cell: "well_formed m \<Longrightarrow> well_formed (set_cell m i j v)"
proof -
  assume wf: "well_formed m"
  show ?thesis
  proof (cases "i < length (data m)")
    case True
    have "set ((data m)[i := (data m ! i)[j := v]]) \<subseteq> insert ((data m ! i)[j := v]) (set (data m))"
      by (rule set_update_subset_insert)
    moreover have "length ((data m ! i)[j := v]) = cols m"
      using wf True by (simp add: well_formed_def list_all_length)
    ultimately show ?thesis
      using wf by (auto simp: well_formed_def set_cell_def list_all_iff)
  next
    case False
    with wf show ?thesis by (simp add: well_formed_def set_cell_def list_update_beyond)
  qed
qed

lemma well_formed_fold_set_cell:
  "well_formed m \<Longrightarrow> well_formed (fold (\<lambda>j m'. set_cell m' (r j m') (c j m') (v j m')) js m)"
  by (rule fold_preserves [where P = well_formed]) (simp_all add: well_formed_set_cell)

lemma well_formed_Matrix_new: "well_formed (Matrix_new A r c)"
  by (simp add: well_formed_def Matrix_new_def list_all_length)

lemma well_formed_augment: "well_formed (augment A m)"
  unfolding augment_def Let_def
proof (rule fold_preserves [where P = well_formed])
  fix x and s :: "'a Matrix"
  assume "well_formed s"
  then show "well_formed
      (set_cell (fold (\<lambda>j augmented. set_cell augmented x j (cell m x j)) [0..<rows m] s)
         x (x + rows m) (fone A))"
    using well_formed_fold_set_cell [of s "\<lambda>j m'. x" "\<lambda>j m'. j" "\<lambda>j m'. cell m x j" "[0..<rows m]"]
    by (simp add: well_formed_set_cell)
qed (rule well_formed_Matrix_new)

lemma well_formed_row: "well_formed m \<Longrightarrow> k < rows m \<Longrightarrow> length (data m ! k) = cols m"
  by (simp add: well_formed_def list_all_length)

section \<open>Matrix: the row operations on whole rows\<close>

lemma exchanged_nth:
  "i < length rs \<Longrightarrow> p < length rs \<Longrightarrow> k < length rs \<Longrightarrow>
   exchanged rs i p ! k = (if k = p then rs ! i else if k = i then rs ! p else rs ! k)"
  by (simp add: exchanged_def nth_list_update)

lemma length_exchanged [simp]: "length (exchanged rs i p) = length rs"
  by (simp add: exchanged_def)

lemma exchanged_same: "exchanged rs i i = rs"
  by (simp add: exchanged_def)

lemma swapRows_exchanged:
  "row1 < rows m \<Longrightarrow> row2 < rows m \<Longrightarrow>
   swapRows m row1 row2 = Inr (m\<lparr>data := exchanged (data m) row1 row2\<rparr>)"
  by (simp add: swapRows_def exchanged_def)

text \<open>
  A loop that rewrites row \<open>r\<close> cell by cell, where the new value of cell \<open>j\<close> is computed
  from the cell itself and from other rows: every cell it reads still holds its
  original value.
\<close>

lemma fold_set_cell_row_current:
  assumes r: "r < length (data m)" and c: "length (data m ! r) = c"
    and g: "\<And>m' j. j < c \<Longrightarrow> data m' ! r ! j = data m ! r ! j \<Longrightarrow>
              (\<forall>s. s \<noteq> r \<longrightarrow> data m' ! s = data m ! s) \<Longrightarrow> g j m' = F j"
  shows "k \<le> c \<Longrightarrow>
    fold (\<lambda>j m'. set_cell m' r j (g j m')) [0..<k] m
      = m\<lparr>data := (data m)[r := map F [0..<k] @ drop k (data m ! r)]\<rparr>"
proof (induction k)
  case 0
  then show ?case by simp
next
  case (Suc k)
  then have k: "k < c" "k \<le> c" by simp_all
  let ?row = "data m ! r"
  define mk where "mk = m\<lparr>data := (data m)[r := map F [0..<k] @ drop k ?row]\<rparr>"
  have dr: "data mk ! r = map F [0..<k] @ drop k ?row"
    using r by (simp add: mk_def)
  have "data mk ! r ! k = ?row ! k"
    using k c by (simp add: dr nth_append)
  moreover have "\<forall>s. s \<noteq> r \<longrightarrow> data mk ! s = data m ! s"
    by (simp add: mk_def)
  ultimately have gk: "g k mk = F k"
    using g [OF k(1)] by blast
  have "(map F [0..<k] @ drop k ?row)[k := F k] = map F [0..<k] @ (drop k ?row)[0 := F k]"
    by (simp add: list_update_append)
  also have "(drop k ?row)[0 := F k] = F k # drop (Suc k) ?row"
    using k c by (simp add: Cons_nth_drop_Suc [symmetric])
  finally have row: "(map F [0..<k] @ drop k ?row)[k := F k] = map F [0..<Suc k] @ drop (Suc k) ?row"
    by simp
  have "fold (\<lambda>j m'. set_cell m' r j (g j m')) [0..<Suc k] m = set_cell mk r k (g k mk)"
    using Suc.IH [OF k(2)] by (simp add: mk_def)
  also have "\<dots> = m\<lparr>data := (data m)[r := map F [0..<Suc k] @ drop (Suc k) ?row]\<rparr>"
    unfolding gk set_cell_def dr row by (simp add: mk_def)
  finally show ?case .
qed

lemma multiplyRow_scaled:
  assumes wf: "well_formed m" and r: "r < rows m"
  shows "multiplyRow A m r f = Inr (m\<lparr>data := (data m)[r := scaled A f (data m ! r)]\<rparr>)"
proof -
  let ?row = "data m ! r"
  from wf r have len: "r < length (data m)" "length ?row = cols m"
    by (simp_all add: well_formed_def list_all_length)
  have "fold (\<lambda>j m'. set_cell m' r j (fmul A (cell m' r j) f)) [0..<cols m] m
      = m\<lparr>data := (data m)[r := map (\<lambda>j. fmul A (?row ! j) f) [0..<cols m] @ drop (cols m) ?row]\<rparr>"
    by (rule fold_set_cell_row_current [OF len]) (simp_all add: cell_def)
  moreover have "map (\<lambda>j. fmul A (?row ! j) f) [0..<cols m] = scaled A f ?row"
    unfolding scaled_def len(2) [symmetric] by (intro nth_equalityI) simp_all
  ultimately show ?thesis
    using r len by (simp add: multiplyRow_def)
qed

lemma addRowMultiple_plus_multiple:
  assumes wf: "well_formed m" and s: "s < rows m" and t: "t < rows m"
  shows "addRowMultiple A m s t f
       = Inr (m\<lparr>data := (data m)[t := plus_multiple A f (data m ! t) (data m ! s)]\<rparr>)"
proof -
  let ?target = "data m ! t" and ?source = "data m ! s"
  from wf s t have len: "t < length (data m)" "length ?target = cols m" and ls: "length ?source = cols m"
    by (simp_all add: well_formed_def list_all_length)
  have "fold (\<lambda>j m'. set_cell m' t j (fadd A (cell m' t j) (fmul A f (cell m' s j)))) [0..<cols m] m
      = m\<lparr>data := (data m)[t := map (\<lambda>j. fadd A (?target ! j) (fmul A f (?source ! j))) [0..<cols m]
                                   @ drop (cols m) ?target]\<rparr>"
  proof (rule fold_set_cell_row_current [OF len])
    fix m' :: "'a Matrix" and j
    assume "j < cols m" and same: "data m' ! t ! j = data m ! t ! j"
      and others: "\<forall>s. s \<noteq> t \<longrightarrow> data m' ! s = data m ! s"
    then have "data m' ! s ! j = data m ! s ! j"
      by (cases "s = t") simp_all
    with same show "fadd A (cell m' t j) (fmul A f (cell m' s j))
        = fadd A (?target ! j) (fmul A f (?source ! j))"
      by (simp add: cell_def)
  qed simp
  moreover have "map (\<lambda>j. fadd A (?target ! j) (fmul A f (?source ! j))) [0..<cols m]
      = plus_multiple A f ?target ?source"
    unfolding plus_multiple_def using len(2) ls by (intro nth_equalityI) simp_all
  ultimately show ?thesis
    using s t len by (simp add: addRowMultiple_def)
qed

lemma length_scaled [simp]: "length (scaled A f r) = length r"
  by (simp add: scaled_def)

lemma length_plus_multiple [simp]:
  "length (plus_multiple A f target source) = min (length target) (length source)"
  by (simp add: plus_multiple_def)

lemma well_formed_update_row:
  "well_formed m \<Longrightarrow> length row = cols m \<Longrightarrow> well_formed (m\<lparr>data := (data m)[k := row]\<rparr>)"
proof -
  assume wf: "well_formed m" and row: "length row = cols m"
  have "length ((data m)[k := row] ! j) = cols m" if "j < length (data m)" for j
    using that wf row by (cases "j = k") (simp_all add: well_formed_def list_all_length)
  with wf show ?thesis
    by (simp add: well_formed_def list_all_length)
qed

lemma map_nth_upt: "length xs = n \<Longrightarrow> map ((!) xs) [0..<n] = xs"
  using map_nth [of xs] by simp

lemma map_nth_all: "map (\<lambda>i. f (xs ! i)) [0..<length xs] = map f xs"
proof -
  have "map (\<lambda>i. f (xs ! i)) [0..<length xs] = map f (map ((!) xs) [0..<length xs])"
    by simp
  then show ?thesis by (simp only: map_nth)
qed

text \<open>The column loop of \<^verbatim>\<open>inverse\<close>, and the loop below the diagonal of \<^verbatim>\<open>determinant\<close>.\<close>

lemma eliminate_column_rows:
  assumes i: "i < n"
  shows "well_formed a \<Longrightarrow> rows a = n \<Longrightarrow> distinct ks \<Longrightarrow> set ks \<subseteq> {..<n} \<Longrightarrow>
    eliminate_column A i ks a =
      Inr (a\<lparr>data := map (\<lambda>k. if k \<in> set ks \<and> k \<noteq> i
                               then plus_multiple A (fneg A (data a ! k ! i)) (data a ! k) (data a ! i)
                               else data a ! k) [0..<n]\<rparr>)"
proof (induction ks arbitrary: a)
  case Nil
  then have "length (data a) = n" by (simp add: well_formed_def)
  then show ?case by (simp add: map_nth_upt)
next
  case (Cons k ks)
  from Cons.prems have len: "length (data a) = n" and k: "k < n" and nin: "k \<notin> set ks"
    and ks: "distinct ks" "set ks \<subseteq> {..<n}"
    by (simp_all add: well_formed_def)
  show ?case
  proof (cases "k = i")
    case True
    have "(\<lambda>r. if r \<in> set (k # ks) \<and> r \<noteq> i then f r else g r)
        = (\<lambda>r. if r \<in> set ks \<and> r \<noteq> i then f r else g r)" for f g :: "nat \<Rightarrow> 'a list"
      using True by auto
    with Cons.IH [OF Cons.prems(1,2) ks] True show ?thesis by simp
  next
    case False
    define pm where "pm = plus_multiple A (fneg A (data a ! k ! i)) (data a ! k) (data a ! i)"
    define a1 where "a1 = a\<lparr>data := (data a)[k := pm]\<rparr>"
    have add: "addRowMultiple A a i k (fneg A (cell a k i)) = Inr a1"
      using addRowMultiple_plus_multiple [OF Cons.prems(1), of i k A] i k Cons.prems(2)
      by (simp add: a1_def pm_def cell_def)
    have lpm: "length pm = cols a"
      using well_formed_row [OF Cons.prems(1)] i k Cons.prems(2) by (simp add: pm_def)
    have wf1: "well_formed a1" and r1: "rows a1 = n"
      using well_formed_update_row [OF Cons.prems(1) lpm] Cons.prems(2) by (simp_all add: a1_def)
    have "map (\<lambda>r. if r \<in> set ks \<and> r \<noteq> i
                   then plus_multiple A (fneg A (data a1 ! r ! i)) (data a1 ! r) (data a1 ! i)
                   else data a1 ! r) [0..<n]
        = map (\<lambda>r. if r \<in> set (k # ks) \<and> r \<noteq> i
                   then plus_multiple A (fneg A (data a ! r ! i)) (data a ! r) (data a ! i)
                   else data a ! r) [0..<n]"
    proof (intro map_cong refl)
      fix r assume "r \<in> set [0..<n]"
      then have r: "r < n" by simp
      show "(if r \<in> set ks \<and> r \<noteq> i
               then plus_multiple A (fneg A (data a1 ! r ! i)) (data a1 ! r) (data a1 ! i)
               else data a1 ! r)
          = (if r \<in> set (k # ks) \<and> r \<noteq> i
               then plus_multiple A (fneg A (data a ! r ! i)) (data a ! r) (data a ! i)
               else data a ! r)"
      proof (cases "r = k")
        case True
        with nin False k len show ?thesis by (simp add: a1_def pm_def)
      next
        case neq: False
        with False show ?thesis by (simp add: a1_def)
      qed
    qed
    with Cons.IH [OF wf1 r1 ks] add False show ?thesis
      by (simp add: a1_def)
  qed
qed

lemma eliminate_below_rows:
  assumes i: "i < n"
  shows "well_formed t \<Longrightarrow> rows t = n \<Longrightarrow> distinct ks \<Longrightarrow> set ks \<subseteq> {i + 1..<n} \<Longrightarrow>
    eliminate_below A i ks t =
      Inr (t\<lparr>data := map (\<lambda>k. if k \<in> set ks
                               then plus_multiple A (fneg A (fdiv A (data t ! k ! i) (data t ! i ! i)))
                                      (data t ! k) (data t ! i)
                               else data t ! k) [0..<n]\<rparr>)"
proof (induction ks arbitrary: t)
  case Nil
  then have "length (data t) = n" by (simp add: well_formed_def)
  then show ?case by (simp add: map_nth_upt)
next
  case (Cons k ks)
  from Cons.prems have len: "length (data t) = n" and k: "k < n" "k \<noteq> i" and nin: "k \<notin> set ks"
    and ks: "distinct ks" "set ks \<subseteq> {i + 1..<n}"
    by (auto simp: well_formed_def)
  define pm where "pm = plus_multiple A (fneg A (fdiv A (data t ! k ! i) (data t ! i ! i)))
      (data t ! k) (data t ! i)"
  define t1 where "t1 = t\<lparr>data := (data t)[k := pm]\<rparr>"
  have add: "addRowMultiple A t i k (fneg A (fdiv A (cell t k i) (cell t i i))) = Inr t1"
    using addRowMultiple_plus_multiple [OF Cons.prems(1), of i k A] i k Cons.prems(2)
    by (simp add: t1_def pm_def cell_def)
  have lpm: "length pm = cols t"
    using well_formed_row [OF Cons.prems(1)] i k Cons.prems(2) by (simp add: pm_def)
  have wf1: "well_formed t1" and r1: "rows t1 = n"
    using well_formed_update_row [OF Cons.prems(1) lpm] Cons.prems(2) by (simp_all add: t1_def)
  have "map (\<lambda>r. if r \<in> set ks
                 then plus_multiple A (fneg A (fdiv A (data t1 ! r ! i) (data t1 ! i ! i)))
                        (data t1 ! r) (data t1 ! i)
                 else data t1 ! r) [0..<n]
      = map (\<lambda>r. if r \<in> set (k # ks)
                 then plus_multiple A (fneg A (fdiv A (data t ! r ! i) (data t ! i ! i)))
                        (data t ! r) (data t ! i)
                 else data t ! r) [0..<n]"
  proof (intro map_cong refl)
    fix r assume "r \<in> set [0..<n]"
    then have r: "r < n" by simp
    show "(if r \<in> set ks
             then plus_multiple A (fneg A (fdiv A (data t1 ! r ! i) (data t1 ! i ! i)))
                    (data t1 ! r) (data t1 ! i)
             else data t1 ! r)
        = (if r \<in> set (k # ks)
             then plus_multiple A (fneg A (fdiv A (data t ! r ! i) (data t ! i ! i)))
                    (data t ! r) (data t ! i)
             else data t ! r)"
    proof (cases "r = k")
      case True
      with nin k len show ?thesis by (simp add: t1_def pm_def)
    next
      case False
      with k show ?thesis by (simp add: t1_def)
    qed
  qed
  with Cons.IH [OF wf1 r1 ks] add show ?case
    by (simp add: t1_def)
qed

section \<open>Matrix: the pivot search\<close>

lemma find_pivot_range: "i < n \<Longrightarrow> i \<le> find_pivot A a i n \<and> find_pivot A a i n < n"
proof -
  let ?step = "\<lambda>k maxRow. if fless A (fabs A (cell a maxRow i)) (fabs A (cell a k i)) then k else maxRow"
  have "i \<le> fold ?step [i + 1..<m] i \<and> fold ?step [i + 1..<m] i < m" if "i < m" for m
    using that
  proof (induction m)
    case 0
    then show ?case by simp
  next
    case (Suc m)
    show ?case
    proof (cases "i = m")
      case True
      then show ?thesis by simp
    next
      case False
      with Suc.prems have im: "i < m" by simp
      then have upt: "[i + 1..<Suc m] = [i + 1..<m] @ [m]" by simp
      from Suc.IH [OF im] im show ?thesis unfolding upt by auto
    qed
  qed
  then show "i < n \<Longrightarrow> i \<le> find_pivot A a i n \<and> find_pivot A a i n < n"
    by (simp add: find_pivot_def)
qed

text \<open>
  Partial pivoting: no entry of column \<open>i\<close> in the rows \<open>i, \<dots>, n - 1\<close> has a magnitude
  above that of the entry in the row the search returns.
\<close>

lemma find_pivot_maximal:
  assumes ord: "strict_order A" and "i < n"
  shows "\<forall>k. i \<le> k \<and> k < n \<longrightarrow>
           \<not> fless A (fabs A (cell a (find_pivot A a i n) i)) (fabs A (cell a k i))"
proof -
  let ?mag = "\<lambda>k. fabs A (cell a k i)"
  let ?step = "\<lambda>k maxRow. if fless A (?mag maxRow) (?mag k) then k else maxRow"
  from ord have irrefl: "\<And>x. \<not> fless A x x"
    and trans: "\<And>x y z. fless A x y \<Longrightarrow> fless A y z \<Longrightarrow> fless A x z"
    unfolding strict_order_def by blast+
  have "\<forall>k. i \<le> k \<and> k < m \<longrightarrow> \<not> fless A (?mag (fold ?step [i + 1..<m] i)) (?mag k)"
    if "i < m" for m
    using that
  proof (induction m)
    case 0
    then show ?case by simp
  next
    case (Suc m)
    show ?case
    proof (cases "i = m")
      case True
      then show ?thesis using irrefl by (auto simp: le_less_Suc_eq)
    next
      case False
      with Suc.prems have im: "i < m" by simp
      then have upt: "[i + 1..<Suc m] = [i + 1..<m] @ [m]" by simp
      define p where "p = fold ?step [i + 1..<m] i"
      from Suc.IH [OF im] have IH: "\<And>k. i \<le> k \<Longrightarrow> k < m \<Longrightarrow> \<not> fless A (?mag p) (?mag k)"
        by (simp add: p_def)
      have fd: "fold ?step [i + 1..<Suc m] i = (if fless A (?mag p) (?mag m) then m else p)"
        unfolding upt p_def by simp
      show ?thesis
      proof (cases "fless A (?mag p) (?mag m)")
        case True
        have "\<not> fless A (?mag m) (?mag k)" if "i \<le> k" "k < Suc m" for k
        proof (cases "k = m")
          case True
          then show ?thesis using irrefl by simp
        next
          case False
          with that have "k < m" by simp
          from IH [OF that(1) this] trans [OF True] show ?thesis by blast
        qed
        with True show ?thesis unfolding fd by simp
      next
        case False
        have "\<not> fless A (?mag p) (?mag k)" if "i \<le> k" "k < Suc m" for k
          using that IH False by (cases "k = m") simp_all
        with False show ?thesis unfolding fd by simp
      qed
    qed
  qed
  from this [OF assms(2)] show ?thesis
    by (simp add: find_pivot_def)
qed

section \<open>Inverse: the loop performs Gauss-Jordan steps\<close>

lemma well_formed_exchanged:
  assumes wf: "well_formed a" and i: "i < rows a" and p: "p < rows a"
  shows "well_formed (a\<lparr>data := exchanged (data a) i p\<rparr>)"
proof -
  from wf have len: "length (data a) = rows a" by (simp add: well_formed_def)
  have "length (exchanged (data a) i p ! k) = cols a" if "k < rows a" for k
    using exchanged_nth [of i "data a" p k] well_formed_row [OF wf] that i p len by simp
  with len show ?thesis
    by (simp add: well_formed_def list_all_length)
qed

lemma well_formed_gauss_jordan_step:
  assumes wf: "well_formed a" and n: "rows a = n" and i: "i < n"
  shows "well_formed (gauss_jordan_step A n i a)
       \<and> rows (gauss_jordan_step A n i a) = n
       \<and> cols (gauss_jordan_step A n i a) = cols a"
proof -
  let ?p = "find_pivot A a i n"
  let ?sw = "exchanged (data a) i ?p"
  from find_pivot_range [OF i, of A a] have p: "?p < n" by simp
  from wf have len: "length (data a) = rows a" by (simp add: well_formed_def)
  have row: "length (?sw ! k) = cols a" if "k < n" for k
    using exchanged_nth [of i "data a" ?p k] well_formed_row [OF wf] that i p len n by simp
  show ?thesis
    using row i n by (simp add: gauss_jordan_step_def Let_def well_formed_def list_all_length)
qed

text \<open>
  One turn of the loop of \<^verbatim>\<open>inverse\<close> on a well-formed augmented matrix: it throws
  when the magnitude of the entry the pivot search finds is below the tolerance, and
  otherwise leaves the matrix that the Gauss-Jordan step describes.
\<close>

lemma pivot_step_refines:
  assumes wf: "well_formed a" and n: "rows a = n" and i: "i < n"
  shows "pivot_step A n i a =
     (if fless A (fabs A (cell a (find_pivot A a i n) i)) (feps A) then Inl Singular
      else Inr (gauss_jordan_step A n i a))"
proof -
  let ?p = "find_pivot A a i n"
  define sw where "sw = a\<lparr>data := exchanged (data a) i ?p\<rparr>"
  from find_pivot_range [OF i, of A a] have p: "?p < n" by simp
  from wf have len: "length (data a) = n" using n by (simp add: well_formed_def)
  have swap: "(if ?p \<noteq> i then swapRows a i ?p else Inr a) = Inr sw"
    using swapRows_exchanged [of i a ?p] i p n by (simp add: sw_def exchanged_same)
  have wfs: "well_formed sw" and rs: "rows sw = n" and ds: "data sw = exchanged (data a) i ?p"
    using well_formed_exchanged [OF wf, of i ?p] i p n by (simp_all add: sw_def)
  define unit_row where "unit_row = scaled A (fdiv A (fone A) (data sw ! i ! i)) (data sw ! i)"
  define nm where "nm = sw\<lparr>data := (data sw)[i := unit_row]\<rparr>"
  have mul: "multiplyRow A sw i (fdiv A (fone A) (cell sw i i)) = Inr nm"
    using multiplyRow_scaled [OF wfs, of i A] i rs by (simp add: nm_def unit_row_def cell_def)
  have lu: "length unit_row = cols sw"
    using well_formed_row [OF wfs, of i] i rs by (simp add: unit_row_def)
  have wfn: "well_formed nm" and rn: "rows nm = n"
    using well_formed_update_row [OF wfs lu] rs by (simp_all add: nm_def)
  have ls: "length (data sw) = n" using len by (simp add: ds)
  have "eliminate_column A i [0..<n] nm =
      Inr (nm\<lparr>data := map (\<lambda>k. if k \<in> set [0..<n] \<and> k \<noteq> i
                 then plus_multiple A (fneg A (data nm ! k ! i)) (data nm ! k) (data nm ! i)
                 else data nm ! k) [0..<n]\<rparr>)"
    by (rule eliminate_column_rows [OF i wfn rn]) auto
  also have "map (\<lambda>k. if k \<in> set [0..<n] \<and> k \<noteq> i
                 then plus_multiple A (fneg A (data nm ! k ! i)) (data nm ! k) (data nm ! i)
                 else data nm ! k) [0..<n]
      = map (\<lambda>k. if k = i then unit_row
                 else plus_multiple A (fneg A (data sw ! k ! i)) (data sw ! k) unit_row) [0..<n]"
    using i ls by (intro map_cong refl) (simp add: nm_def)
  finally have elim: "eliminate_column A i [0..<n] nm =
      Inr (a\<lparr>data := map (\<lambda>k. if k = i then unit_row
                 else plus_multiple A (fneg A (data sw ! k ! i)) (data sw ! k) unit_row) [0..<n]\<rparr>)"
    by (simp add: nm_def sw_def)
  show ?thesis
    unfolding pivot_step_def Let_def swap
    using mul elim
    by (simp add: gauss_jordan_step_def Let_def unit_row_def ds)
qed

lemma gauss_jordan_snoc:
  "gauss_jordan A n (xs @ [x]) a =
     (case gauss_jordan A n xs a of Inl e \<Rightarrow> Inl e | Inr a' \<Rightarrow> pivot_step A n x a')"
  by (induction xs arbitrary: a) (auto split: sum.splits)

lemma well_formed_reduced:
  assumes "well_formed a" and "rows a = n"
  shows "k \<le> n \<Longrightarrow> well_formed (reduced A n a k) \<and> rows (reduced A n a k) = n
                  \<and> cols (reduced A n a k) = cols a"
proof (induction k)
  case 0
  with assms show ?case by simp
next
  case (Suc k)
  then have *: "well_formed (reduced A n a k)" "rows (reduced A n a k) = n"
    "cols (reduced A n a k) = cols a" "k < n" by simp_all
  from well_formed_gauss_jordan_step [OF *(1,2,4), of A] *(3) show ?case by simp
qed

lemma gauss_jordan_reduced:
  assumes "well_formed a" and "rows a = n"
  shows "k \<le> n \<Longrightarrow> gauss_jordan A n [0..<k] a =
     (if \<exists>i<k. fless A (fabs A (cell (reduced A n a i) (find_pivot A (reduced A n a i) i n) i)) (feps A)
      then Inl Singular
      else Inr (reduced A n a k))"
proof (induction k)
  case 0
  then show ?case by simp
next
  case (Suc k)
  then have k: "k < n" "k \<le> n" by simp_all
  let ?small = "\<lambda>i. fless A (fabs A (cell (reduced A n a i) (find_pivot A (reduced A n a i) i n) i)) (feps A)"
  from well_formed_reduced [OF assms k(2), of A]
  have r: "well_formed (reduced A n a k)" "rows (reduced A n a k) = n" by simp_all
  note step = pivot_step_refines [OF r k(1), of A]
  show ?case
  proof (cases "\<exists>i<k. ?small i")
    case True
    then have "\<exists>i<Suc k. ?small i"
      using less_Suc_eq by blast
    with True Suc.IH [OF k(2)] show ?thesis
      by (simp add: gauss_jordan_snoc del: reduced.simps)
  next
    case False
    then have ex: "(\<exists>i<Suc k. ?small i) \<longleftrightarrow> ?small k"
      using less_Suc_eq by auto
    from False Suc.IH [OF k(2)] have "gauss_jordan A n [0..<k] a = Inr (reduced A n a k)" by simp
    then show ?thesis
      unfolding ex by (simp add: gauss_jordan_snoc step)
  qed
qed

section \<open>Matrix: the filled result of an operator\<close>

lemma fold_set_cell_row:
  assumes "i < length (data m)" and "length (data m ! i) = c"
  shows "k \<le> c \<Longrightarrow>
    data (fold (\<lambda>j result. set_cell result i j (g j)) [0..<k] m)
      = (data m)[i := map g [0..<k] @ drop k (data m ! i)]"
  using fold_set_cell_row_current [OF assms, of "\<lambda>j m'. g j" g k] by simp

lemma data_fill: "data (fill A r c f) = map (\<lambda>i. map (f i) [0..<c]) [0..<r]"
proof -
  let ?inner = "\<lambda>i result. fold (\<lambda>j result. set_cell result i j (f i j)) [0..<c] result"
  have "k \<le> r \<Longrightarrow> data (fold ?inner [0..<k] (Matrix_new A r c))
          = map (\<lambda>i. map (f i) [0..<c]) [0..<k] @ replicate (r - k) (replicate c (fzero A))" for k
  proof (induction k)
    case 0
    then show ?case by (simp add: Matrix_new_def)
  next
    case (Suc k)
    then have k: "k < r" "k \<le> r" by simp_all
    define m where "m = fold ?inner [0..<k] (Matrix_new A r c)"
    define filled where "filled = map (\<lambda>i. map (f i) [0..<c]) [0..<k]"
    from Suc.IH [OF k(2)] have dm: "data m = filled @ replicate (r - k) (replicate c (fzero A))"
      by (simp add: m_def filled_def)
    have ld: "length filled = k" by (simp add: filled_def)
    from dm ld k have i: "k < length (data m)" and row: "data m ! k = replicate c (fzero A)"
      by (simp_all add: nth_append)
    from row have lrow: "length (data m ! k) = c" by simp
    have rk: "replicate (r - k) (replicate c (fzero A))
        = replicate c (fzero A) # replicate (r - Suc k) (replicate c (fzero A))"
      using k by (simp add: Suc_diff_Suc replicate_Suc [symmetric] del: replicate_Suc)
    have "data (?inner k m) = (data m)[k := map (f k) [0..<c]]"
      using fold_set_cell_row [OF i lrow, of c "f k"] lrow by simp
    also have "\<dots> = filled @ map (f k) [0..<c] # replicate (r - Suc k) (replicate c (fzero A))"
      unfolding dm rk using ld by (simp add: list_update_append)
    finally show ?case
      by (simp add: m_def [symmetric] filled_def)
  qed
  from this [of r] show ?thesis by (simp add: fill_def)
qed

lemma dims_fill [simp]: "rows (fill A r c f) = r" "cols (fill A r c f) = c"
proof -
  let ?P = "\<lambda>s :: 'a Matrix. rows s = r \<and> cols s = c"
  have "?P (fill A r c f)"
    unfolding fill_def
  proof (rule fold_preserves [where P = ?P])
    fix x and s :: "'a Matrix"
    assume "?P s"
    then show "?P (fold (\<lambda>j result. set_cell result x j (f x j)) [0..<c] s)"
      using dims_fold_set_cell [of "\<lambda>j m'. x" "\<lambda>j m'. j" "\<lambda>j m'. f x j" "[0..<c]" s] by simp
  qed simp
  then show "rows (fill A r c f) = r" "cols (fill A r c f) = c" by simp_all
qed

lemma cell_fill: "i < r \<Longrightarrow> j < c \<Longrightarrow> cell (fill A r c f) i j = f i j"
  by (simp add: cell_def data_fill)

lemma fill_cong:
  "(\<And>i j. i < r \<Longrightarrow> j < c \<Longrightarrow> f i j = g i j) \<Longrightarrow> fill A r c f = fill A r c g"
  by (rule Matrix.equality) (simp_all add: data_fill)

lemma fill_cell_fill: "fill A r c (\<lambda>i j. cell (fill A r c f) i j) = fill A r c f"
  by (rule fill_cong) (simp add: cell_fill)

lemma replicate_update_unit:
  "i < n \<Longrightarrow> (replicate n z)[i := u] = map (\<lambda>j. if j = i then u else z) [0..<n]"
  by (intro nth_equalityI) (simp_all add: nth_list_update)

text \<open>The augmented matrix is \<open>[A | I]\<close>: row \<open>i\<close> of \<open>A\<close> followed by row \<open>i\<close> of the identity.\<close>

lemma data_augment:
  "data (augment A m) =
     map (\<lambda>i. map (cell m i) [0..<rows m] @ map (\<lambda>j. if j = i then fone A else fzero A) [0..<rows m])
       [0..<rows m]"
proof -
  let ?n = "rows m"
  let ?zeros = "replicate (2 * ?n) (fzero A)"
  let ?row = "\<lambda>i. map (cell m i) [0..<?n] @ map (\<lambda>j. if j = i then fone A else fzero A) [0..<?n]"
  let ?turn = "\<lambda>i augmented.
      set_cell (fold (\<lambda>j augmented. set_cell augmented i j (cell m i j)) [0..<?n] augmented)
        i (i + ?n) (fone A)"
  have "k \<le> ?n \<Longrightarrow> data (fold ?turn [0..<k] (Matrix_new A ?n (2 * ?n)))
          = map ?row [0..<k] @ replicate (?n - k) ?zeros" for k
  proof (induction k)
    case 0
    then show ?case by (simp add: Matrix_new_def)
  next
    case (Suc k)
    then have k: "k < ?n" "k \<le> ?n" by simp_all
    define a where "a = fold ?turn [0..<k] (Matrix_new A ?n (2 * ?n))"
    define filled where "filled = map ?row [0..<k]"
    from Suc.IH [OF k(2)] have da: "data a = filled @ replicate (?n - k) ?zeros"
      by (simp add: a_def filled_def)
    have lf: "length filled = k" by (simp add: filled_def)
    from da lf k have i: "k < length (data a)" and row: "data a ! k = ?zeros"
      by (simp_all add: nth_append)
    from row have lrow: "length (data a ! k) = 2 * ?n" by simp
    have rk: "replicate (?n - k) ?zeros = ?zeros # replicate (?n - Suc k) ?zeros"
      using k by (simp add: Suc_diff_Suc replicate_Suc [symmetric] del: replicate_Suc)
    define b where "b = fold (\<lambda>j augmented. set_cell augmented k j (cell m k j)) [0..<?n] a"
    have db: "data b = (data a)[k := map (cell m k) [0..<?n] @ replicate ?n (fzero A)]"
      using fold_set_cell_row [OF i lrow, of ?n "cell m k"] row
      by (simp add: b_def)
    have "data (set_cell b k (k + ?n) (fone A)) = (data a)[k := ?row k]"
      using i k replicate_update_unit [OF k(1), of "fzero A" "fone A"]
      by (simp add: set_cell_def db list_update_append)
    also have "\<dots> = filled @ ?row k # replicate (?n - Suc k) ?zeros"
      unfolding da rk using lf by (simp add: list_update_append)
    finally show ?case
      by (simp add: a_def [symmetric] b_def [symmetric] filled_def)
  qed
  from this [of ?n] show ?thesis by (simp add: augment_def Let_def)
qed

lemma data_augment_well_formed:
  assumes "well_formed m" and "rows m = cols m"
  shows "data (augment A m) = beside_identity A m"
proof -
  have "map (cell m i) [0..<rows m] = data m ! i" if "i < rows m" for i
  proof -
    from assms that have "length (data m ! i) = rows m"
      by (simp add: well_formed_def list_all_length)
    then show ?thesis
      using map_nth [of "data m ! i"] by (simp add: cell_def [abs_def])
  qed
  then show ?thesis
    unfolding data_augment beside_identity_def by (intro map_cong) simp_all
qed

text \<open>The extraction loop copies the right half of every row.\<close>

lemma right_half_rows:
  assumes wf: "well_formed a" and n: "rows a = n" and c: "cols a = 2 * n"
  shows "right_half A n a = \<lparr>data = map (drop n) (data a), rows = n, cols = n\<rparr>"
proof -
  from wf n have len: "length (data a) = n" by (simp add: well_formed_def)
  have row: "map (\<lambda>j. cell a i (j + n)) [0..<n] = drop n (data a ! i)" if "i < n" for i
  proof -
    from well_formed_row [OF wf, of i] that n c have "length (data a ! i) = 2 * n" by simp
    then show ?thesis
      by (intro nth_equalityI) (simp_all add: cell_def add.commute)
  qed
  have "map (\<lambda>i. map (\<lambda>j. cell a i (j + n)) [0..<n]) [0..<n]
      = map (\<lambda>i. drop n (data a ! i)) [0..<n]"
    by (intro map_cong refl) (simp add: row)
  also have "\<dots> = map (drop n) (data a)"
    using map_nth_all [of "drop n" "data a"] len by simp
  finally show ?thesis
    by (intro Matrix.equality) (simp_all add: right_half_def data_fill)
qed

text \<open>
  C3. In every arithmetic, \<^verbatim>\<open>inverse\<close> fails with \<open>NotSquare\<close> on every matrix whose
  dimension fields differ. On a square matrix it fails with \<open>Singular\<close> exactly when
  there is a pivot column \<open>i\<close> where the magnitude of the entry that the pivot search
  selects compares below the tolerance \<^verbatim>\<open>1e-10\<close>, and then it returns no matrix;
  when no column is like that it returns the right half of the augmented matrix after
  a Gauss-Jordan step (exchange with the pivot row, division of the pivot row by the
  pivot, elimination of the column from every other row) on each column. The
  selected entry lies in a row \<open>\<ge> i\<close>, and when \<^verbatim>\<open><\<close> is a strict order no entry of
  column \<open>i\<close> in the rows \<open>\<ge> i\<close> has a magnitude above it (partial pivoting). The
  augmented matrix the loop starts from is \<open>[A | I]\<close>: each row of the (well-formed)
  receiver followed by the row of the identity. \<open>[[1, 2], [2, 4]]\<close> is singular.
\<close>

theorem inverse_failures:
  "(rows m \<noteq> cols m \<longrightarrow> Matrix_inverse A m = Inl NotSquare)
   \<and> (rows m = cols m \<longrightarrow>
        (Matrix_inverse A m = Inl Singular \<longleftrightarrow>
           (\<exists>i<rows m. fless A (inverse_pivot_magnitude A m i) (feps A)))
        \<and> ((\<forall>i<rows m. \<not> fless A (inverse_pivot_magnitude A m i) (feps A)) \<longrightarrow>
             Matrix_inverse A m =
               Inr \<lparr>data = map (drop (rows m)) (data (reduced A (rows m) (augment A m) (rows m))),
                    rows = rows m, cols = rows m\<rparr>)
        \<and> (\<forall>i<rows m. i \<le> inverse_pivot_row A m i \<and> inverse_pivot_row A m i < rows m)
        \<and> (strict_order A \<longrightarrow>
             (\<forall>i<rows m. \<forall>k. i \<le> k \<and> k < rows m \<longrightarrow>
                \<not> fless A (inverse_pivot_magnitude A m i)
                     (fabs A (cell (reduced A (rows m) (augment A m) i) k i)))))
   \<and> (rows m = cols m \<and> well_formed m \<longrightarrow> data (augment A m) = beside_identity A m)
   \<and> Matrix_inverse real_arith (Matrix_of [[1, 2], [2, 4]]) = Inl Singular"
proof (intro conjI impI)
  show "Matrix_inverse real_arith (Matrix_of [[1, 2], [2, 4]]) = Inl Singular"
    by code_simp
next
  assume "rows m = cols m \<and> well_formed m"
  then show "data (augment A m) = beside_identity A m"
    by (simp add: data_augment_well_formed)
next
  assume "rows m \<noteq> cols m"
  then show "Matrix_inverse A m = Inl NotSquare"
    by (simp add: Matrix_inverse_def)
next
  show "\<forall>i<rows m. i \<le> inverse_pivot_row A m i \<and> inverse_pivot_row A m i < rows m"
    using find_pivot_range [of _ "rows m" A] by (simp add: inverse_pivot_row_def)
next
  assume "strict_order A"
  then show "\<forall>i<rows m. \<forall>k. i \<le> k \<and> k < rows m \<longrightarrow>
      \<not> fless A (inverse_pivot_magnitude A m i)
           (fabs A (cell (reduced A (rows m) (augment A m) i) k i))"
    using find_pivot_maximal [of A _ "rows m"]
    by (simp add: inverse_pivot_magnitude_def inverse_pivot_row_def)
next
  assume sq: "rows m = cols m"
  have gj: "gauss_jordan A (rows m) [0..<rows m] (augment A m) =
     (if \<exists>i<rows m. fless A (inverse_pivot_magnitude A m i) (feps A)
      then Inl Singular else Inr (reduced A (rows m) (augment A m) (rows m)))"
    unfolding inverse_pivot_magnitude_def inverse_pivot_row_def
    by (rule gauss_jordan_reduced) (simp_all add: well_formed_augment)
  from sq show "Matrix_inverse A m = Inl Singular \<longleftrightarrow>
           (\<exists>i<rows m. fless A (inverse_pivot_magnitude A m i) (feps A))"
    unfolding Matrix_inverse_def Let_def gj by simp
  from well_formed_reduced [of "augment A m" "rows m" "rows m" A]
  have "right_half A (rows m) (reduced A (rows m) (augment A m) (rows m))
      = \<lparr>data = map (drop (rows m)) (data (reduced A (rows m) (augment A m) (rows m))),
          rows = rows m, cols = rows m\<rparr>"
    by (intro right_half_rows) (simp_all add: well_formed_augment)
  moreover assume "\<forall>i<rows m. \<not> fless A (inverse_pivot_magnitude A m i) (feps A)"
  ultimately show "Matrix_inverse A m =
      Inr \<lparr>data = map (drop (rows m)) (data (reduced A (rows m) (augment A m) (rows m))),
           rows = rows m, cols = rows m\<rparr>"
    using sq unfolding Matrix_inverse_def Let_def gj by simp
qed

theorem inverse_failures_witness:
  "Matrix_inverse real_arith (Matrix_of [[4, 7, 1], [2, 6, 3]]) = Inl NotSquare
   \<and> (\<exists>i<2. fless real_arith (inverse_pivot_magnitude real_arith (Matrix_of [[1, 2], [2, 4]]) i)
               (feps real_arith))
   \<and> Matrix_inverse real_arith (Matrix_of [[1, 2], [2, 4]]) = Inl Singular
   \<and> inverse_pivot_row real_arith (Matrix_of [[0, 2], [1, 1]]) 0 = 1
   \<and> data (reduced real_arith 2 (augment real_arith (Matrix_of [[0, 2], [1, 1]])) 2)
       = [[1, 0, - (1 / 2), 1], [0, 1, 1 / 2, 0]]
   \<and> Matrix_inverse real_arith (Matrix_of [[0, 2], [1, 1]]) =
       Inr \<lparr>data = [[- (1 / 2), 1], [1 / 2, 0]], rows = 2, cols = 2\<rparr>
   \<and> data (augment real_arith (Matrix_of [[0, 2], [1, 1]])) = [[0, 2, 1, 0], [1, 1, 0, 1]]
   \<and> \<not> fless real_arith (inverse_pivot_magnitude real_arith (Matrix_of [[0, 2], [1, 1]]) 0)
          (fabs real_arith (cell (augment real_arith (Matrix_of [[0, 2], [1, 1]])) 0 0))"
proof -
  let ?N = "Matrix_of [[4, 7, 1], [2, 6, 3::real]]"
  let ?S = "Matrix_of [[1, 2], [2, 4::real]]"
  let ?R = "Matrix_of [[0, 2], [1, 1::real]]"
  have dims: "rows ?N \<noteq> cols ?N" "rows ?S = cols ?S" "rows ?R = cols ?R" "rows ?S = 2" "rows ?R = 2"
    by (simp_all add: Matrix_of_def)
  from inverse_failures [of ?N real_arith] dims(1)
  have 1: "Matrix_inverse real_arith ?N = Inl NotSquare" by blast
  have "fless real_arith (inverse_pivot_magnitude real_arith ?S 1) (feps real_arith)"
    by code_simp
  then have 2: "\<exists>i<2. fless real_arith (inverse_pivot_magnitude real_arith ?S i) (feps real_arith)"
    by (intro exI [of _ 1]) simp
  with inverse_failures [of ?S real_arith] dims(2)
  have 3: "Matrix_inverse real_arith ?S = Inl Singular" unfolding dims(4) by blast
  have r: "\<not> fless real_arith (inverse_pivot_magnitude real_arith ?R 0) (feps real_arith)"
       "\<not> fless real_arith (inverse_pivot_magnitude real_arith ?R 1) (feps real_arith)"
    by code_simp+
  have all: "\<forall>i<2. \<not> fless real_arith (inverse_pivot_magnitude real_arith ?R i) (feps real_arith)"
  proof (intro allI impI)
    fix i :: nat
    assume "i < 2"
    then consider "i = 0" | "i = 1" by linarith
    then show "\<not> fless real_arith (inverse_pivot_magnitude real_arith ?R i) (feps real_arith)"
      using r by cases simp_all
  qed
  with inverse_failures [of ?R real_arith] dims(3)
  have "Matrix_inverse real_arith ?R =
      Inr \<lparr>data = map (drop 2) (data (reduced real_arith 2 (augment real_arith ?R) 2)),
           rows = 2, cols = 2\<rparr>"
    unfolding dims(5) by blast
  moreover have red: "data (reduced real_arith 2 (augment real_arith ?R) 2)
      = [[1, 0, - (1 / 2), 1], [0, 1, 1 / 2, 0]]"
    by code_simp
  ultimately have 4: "Matrix_inverse real_arith ?R =
      Inr \<lparr>data = [[- (1 / 2), 1], [1 / 2, 0]], rows = 2, cols = 2\<rparr>"
    by simp
  have wf: "rows ?R = cols ?R \<and> well_formed ?R"
    by (simp add: Matrix_of_def well_formed_def)
  have "[0..<2] = [0, 1]" by (simp add: upt_conv_Cons)
  with inverse_failures [of ?R real_arith] wf
  have 5: "data (augment real_arith ?R) = [[0, 2, 1, 0], [1, 1, 0, 1]]"
    unfolding dims(5) by (simp add: Matrix_of_def beside_identity_def)
  have 6: "inverse_pivot_row real_arith ?R 0 = 1"
    by code_simp
  from inverse_failures [of ?R real_arith] dims(3) strict_order_real
  have "\<forall>i<2. \<forall>k. i \<le> k \<and> k < 2 \<longrightarrow>
      \<not> fless real_arith (inverse_pivot_magnitude real_arith ?R i)
           (fabs real_arith (cell (reduced real_arith 2 (augment real_arith ?R) i) k i))"
    unfolding dims(5) by blast
  then have 7: "\<not> fless real_arith (inverse_pivot_magnitude real_arith ?R 0)
      (fabs real_arith (cell (augment real_arith ?R) 0 0))"
    by force
  from 1 2 3 4 5 6 7 red show ?thesis by blast
qed

section \<open>Determinant: the loop performs elimination steps\<close>

lemma well_formed_elimination_step:
  assumes wf: "well_formed t" and n: "rows t = n" and i: "i < n"
  shows "well_formed (elimination_step A n i t) \<and> rows (elimination_step A n i t) = n"
proof -
  let ?p = "find_pivot A t i n"
  let ?sw = "exchanged (data t) i ?p"
  from find_pivot_range [OF i, of A t] have p: "?p < n" by simp
  from wf have len: "length (data t) = rows t" by (simp add: well_formed_def)
  have row: "length (?sw ! k) = cols t" if "k < n" for k
    using exchanged_nth [of i "data t" ?p k] well_formed_row [OF wf] that i p len n by simp
  show ?thesis
    using row i n by (simp add: elimination_step_def Let_def well_formed_def list_all_length)
qed

text \<open>
  One turn of the loop of \<^verbatim>\<open>determinant\<close> on a well-formed scratch matrix: it returns
  \<^verbatim>\<open>0.0\<close> when the magnitude of the entry the pivot search finds is below the
  tolerance; otherwise the accumulator is multiplied by \<^verbatim>\<open>-1.0\<close> if rows are exchanged
  and by the pivot, and the scratch matrix is what the elimination step describes.
\<close>

lemma det_loop_step:
  assumes wf: "well_formed t" and n: "rows t = n" and i: "i < n"
  shows "det_loop A n (i # is) t det =
     (if fless A (fabs A (cell t (find_pivot A t i n) i)) (feps A) then Inr (fzero A)
      else det_loop A n is (elimination_step A n i t)
             (fmul A (if find_pivot A t i n \<noteq> i then fmul A det (fneg A (fone A)) else det)
                (cell t (find_pivot A t i n) i)))"
proof -
  let ?p = "find_pivot A t i n"
  define sw where "sw = t\<lparr>data := exchanged (data t) i ?p\<rparr>"
  from find_pivot_range [OF i, of A t] have p: "?p < n" by simp
  from wf have len: "length (data t) = n" using n by (simp add: well_formed_def)
  have swap: "swapRows t i ?p = Inr sw"
    using swapRows_exchanged [of i t ?p] i p n by (simp add: sw_def)
  have same: "?p = i \<Longrightarrow> sw = t"
    by (simp add: sw_def exchanged_same)
  have wfs: "well_formed sw" and rs: "rows sw = n" and ds: "data sw = exchanged (data t) i ?p"
    using well_formed_exchanged [OF wf, of i ?p] i p n by (simp_all add: sw_def)
  have pivot: "cell sw i i = cell t ?p i"
    using exchanged_nth [of i "data t" ?p i] i p len by (simp add: cell_def ds)
  have "eliminate_below A i [i + 1..<n] sw =
      Inr (sw\<lparr>data := map (\<lambda>k. if k \<in> set [i + 1..<n]
                 then plus_multiple A (fneg A (fdiv A (data sw ! k ! i) (data sw ! i ! i)))
                        (data sw ! k) (data sw ! i)
                 else data sw ! k) [0..<n]\<rparr>)"
    by (rule eliminate_below_rows [OF i wfs rs]) auto
  also have "map (\<lambda>k. if k \<in> set [i + 1..<n]
                 then plus_multiple A (fneg A (fdiv A (data sw ! k ! i) (data sw ! i ! i)))
                        (data sw ! k) (data sw ! i)
                 else data sw ! k) [0..<n]
      = map (\<lambda>k. if k \<le> i then data sw ! k
                 else plus_multiple A (fneg A (fdiv A (data sw ! k ! i) (data sw ! i ! i)))
                        (data sw ! k) (data sw ! i)) [0..<n]"
    by (intro map_cong refl) auto
  finally have elim: "eliminate_below A i [i + 1..<n] sw = Inr (elimination_step A n i t)"
    by (simp add: elimination_step_def Let_def sw_def)
  show ?thesis
  proof (cases "?p = i")
    case True
    with elim pivot same show ?thesis by (simp add: Let_def)
  next
    case False
    with elim pivot swap show ?thesis by (simp add: Let_def)
  qed
qed

lemma well_formed_eliminated:
  "well_formed m \<Longrightarrow> rows m = n \<Longrightarrow> i \<le> n \<Longrightarrow>
   well_formed (eliminated A n m i) \<and> rows (eliminated A n m i) = n"
proof (induction i)
  case 0
  then show ?case by simp
next
  case (Suc i)
  then have "well_formed (eliminated A n m i)" "rows (eliminated A n m i) = n" "i < n" by simp_all
  from well_formed_elimination_step [OF this, of A] show ?case by simp
qed

lemma det_loop_from:
  assumes wf: "well_formed m" and n: "rows m = n"
  shows "i \<le> n \<Longrightarrow> det_loop A n [i..<n] (eliminated A n m i) d =
     Inr (if \<exists>j. i \<le> j \<and> j < n \<and> fless A (fabs A (pivot_value A n m j)) (feps A) then fzero A
          else foldl (\<lambda>det i. fmul A (if pivot_row A n m i \<noteq> i then fmul A det (fneg A (fone A))
                                        else det)
                                 (pivot_value A n m i))
                 d [i..<n])"
proof (induction "n - i" arbitrary: i d)
  case 0
  then show ?case by auto
next
  case (Suc k)
  then have i: "i < n" and k: "k = n - Suc i" "Suc i \<le> n" by simp_all
  let ?small = "\<lambda>j. fless A (fabs A (pivot_value A n m j)) (feps A)"
  from well_formed_eliminated [OF wf n, of i A] i
  have inv: "well_formed (eliminated A n m i)" "rows (eliminated A n m i) = n" by simp_all
  have upt: "[i..<n] = i # [Suc i..<n]" using i by (simp add: upt_conv_Cons)
  note step = det_loop_step [OF inv i, of A "[Suc i..<n]" d,
      folded pivot_row_def, folded pivot_value_def, folded eliminated.simps(2)]
  show ?case
  proof (cases "?small i")
    case True
    then have "\<exists>j. i \<le> j \<and> j < n \<and> ?small j" using i by blast
    with True show ?thesis
      unfolding upt step by simp
  next
    case False
    define later where "later \<longleftrightarrow> (\<exists>j. Suc i \<le> j \<and> j < n \<and> ?small j)"
    from False have ex: "(\<exists>j. i \<le> j \<and> j < n \<and> ?small j) \<longleftrightarrow> later"
      unfolding later_def by (metis Suc_leI le_neq_implies_less Suc_leD)
    note ih = Suc.hyps(1) [OF k, folded later_def]
    show ?thesis
      unfolding upt step ih ex using False by simp
  qed
qed

lemma pivot_product_real:
  "foldl (\<lambda>det i. fmul real_arith (if s i then fmul real_arith det (fneg real_arith (fone real_arith))
                                     else det) (v i)) d xs
     = d * ((- 1) ^ length (filter s xs) * prod_list (map v xs))"
  by (induction xs arbitrary: d) simp_all

text \<open>
  C4. In every arithmetic, \<^verbatim>\<open>determinant\<close> leaves the receiver as it was. It fails
  with \<open>NotSquare\<close> when the dimension fields differ, returns the entry of a
  \<open>1 \<times> 1\<close> matrix and \<open>ad - bc\<close> of a \<open>2 \<times> 2\<close> matrix. On a larger well-formed square
  matrix it returns \<^verbatim>\<open>0.0\<close> as soon as the magnitude of a pivot compares below the
  tolerance \<^verbatim>\<open>1e-10\<close>, and otherwise the accumulated product: \<^verbatim>\<open>1.0\<close>, multiplied at
  each column by \<^verbatim>\<open>-1.0\<close> if rows are exchanged and then by the pivot. The pivot of
  column \<open>i\<close> is taken from a row \<open>\<ge> i\<close> of the matrix left by the elimination steps
  (exchange with the pivot row; subtraction of a multiple of row \<open>i\<close> from every row
  below) on the columns before, and when \<^verbatim>\<open><\<close> is a strict order no entry of column
  \<open>i\<close> in the rows \<open>\<ge> i\<close> has a magnitude above it (partial pivoting). In exact
  arithmetic the accumulated product is the product of the pivots times \<open>-1\<close> for
  every exchange.
\<close>

theorem determinant_cases:
  "fst (determinant A m) = m
   \<and> (rows m \<noteq> cols m \<longrightarrow> snd (determinant A m) = Inl NotSquare)
   \<and> (rows m = cols m \<and> rows m = 1 \<longrightarrow> snd (determinant A m) = Inr (cell m 0 0))
   \<and> (rows m = cols m \<and> rows m = 2 \<longrightarrow>
        snd (determinant A m) =
          Inr (fsub A (fmul A (cell m 0 0) (cell m 1 1)) (fmul A (cell m 0 1) (cell m 1 0))))
   \<and> (rows m = cols m \<and> 3 \<le> rows m \<and> well_formed m \<longrightarrow>
        snd (determinant A m) =
          Inr (if \<exists>i<rows m. fless A (fabs A (pivot_value A (rows m) m i)) (feps A) then fzero A
               else pivot_product A (rows m) m)
        \<and> (\<forall>i<rows m. i \<le> pivot_row A (rows m) m i \<and> pivot_row A (rows m) m i < rows m)
        \<and> (strict_order A \<longrightarrow>
             (\<forall>i<rows m. \<forall>k. i \<le> k \<and> k < rows m \<longrightarrow>
                \<not> fless A (fabs A (pivot_value A (rows m) m i))
                     (fabs A (cell (eliminated A (rows m) m i) k i)))))
   \<and> pivot_product real_arith n r =
       (- 1) ^ length (filter (\<lambda>i. pivot_row real_arith n r i \<noteq> i) [0..<n])
       * prod_list (map (pivot_value real_arith n r) [0..<n])"
proof (intro conjI impI)
  show "fst (determinant A m) = m"
    by (simp add: determinant_def)
next
  assume "rows m \<noteq> cols m"
  then show "snd (determinant A m) = Inl NotSquare"
    by (simp add: determinant_def)
next
  assume "rows m = cols m \<and> rows m = 1"
  then show "snd (determinant A m) = Inr (cell m 0 0)"
    by (simp add: determinant_def)
next
  assume "rows m = cols m \<and> rows m = 2"
  then show "snd (determinant A m) =
      Inr (fsub A (fmul A (cell m 0 0) (cell m 1 1)) (fmul A (cell m 0 1) (cell m 1 0)))"
    by (simp add: determinant_def)
next
  assume a: "rows m = cols m \<and> 3 \<le> rows m \<and> well_formed m"
  then have wf: "well_formed m" by simp
  from det_loop_from [OF wf refl, of 0 A "fone A"]
  have "det_loop A (rows m) [0..<rows m] m (fone A) =
      Inr (if \<exists>i<rows m. fless A (fabs A (pivot_value A (rows m) m i)) (feps A) then fzero A
           else pivot_product A (rows m) m)"
    by (auto simp: pivot_product_def)
  with a show "snd (determinant A m) =
          Inr (if \<exists>i<rows m. fless A (fabs A (pivot_value A (rows m) m i)) (feps A) then fzero A
               else pivot_product A (rows m) m)"
    by (auto simp: determinant_def)
next
  show "\<forall>i<rows m. i \<le> pivot_row A (rows m) m i \<and> pivot_row A (rows m) m i < rows m"
    using find_pivot_range [of _ "rows m" A] by (simp add: pivot_row_def)
next
  assume "strict_order A"
  then show "\<forall>i<rows m. \<forall>k. i \<le> k \<and> k < rows m \<longrightarrow>
      \<not> fless A (fabs A (pivot_value A (rows m) m i)) (fabs A (cell (eliminated A (rows m) m i) k i))"
    using find_pivot_maximal [of A _ "rows m"]
    by (simp add: pivot_value_def pivot_row_def)
next
  show "pivot_product real_arith n r =
       (- 1) ^ length (filter (\<lambda>i. pivot_row real_arith n r i \<noteq> i) [0..<n])
       * prod_list (map (pivot_value real_arith n r) [0..<n])"
    unfolding pivot_product_def pivot_product_real by simp
qed

theorem determinant_cases_witness:
  "snd (determinant real_arith (Matrix_of [[1, 2], [4, 5], [7, 8]])) = Inl NotSquare
   \<and> snd (determinant real_arith (Matrix_of [[5]])) = Inr 5
   \<and> snd (determinant real_arith (Matrix_of [[4, 7], [2, 6]])) = Inr 10
   \<and> map (pivot_row real_arith 3 (Matrix_of [[0, 2, 1], [4, 2, 2], [2, 1, 3]])) [0, 1, 2] = [1, 1, 2]
   \<and> snd (determinant real_arith (Matrix_of [[0, 2, 1], [4, 2, 2], [2, 1, 3]])) = Inr (- 16)
   \<and> snd (determinant real_arith (Matrix_of [[1, 2, 3], [2, 4, 6], [0, 1, 1]])) = Inr 0
   \<and> fst (determinant real_arith (Matrix_of [[0, 2, 1], [4, 2, 2], [2, 1, 3]]))
       = Matrix_of [[0, 2, 1], [4, 2, 2], [2, 1, 3]]
   \<and> \<not> fless real_arith (fabs real_arith (pivot_value real_arith 3 (Matrix_of [[0, 2, 1], [4, 2, 2], [2, 1, 3]]) 0))
          (fabs real_arith (cell (Matrix_of [[0, 2, 1], [4, 2, 2], [2, 1, 3]]) 2 0))"
proof -
  let ?N = "Matrix_of [[1, 2], [4, 5], [7, 8::real]]"
  let ?A = "Matrix_of [[5::real]]"
  let ?B = "Matrix_of [[4, 7], [2, 6::real]]"
  let ?C = "Matrix_of [[0, 2, 1], [4, 2, 2], [2, 1, 3::real]]"
  let ?D = "Matrix_of [[1, 2, 3], [2, 4, 6], [0, 1, 1::real]]"
  have 1: "snd (determinant real_arith ?N) = Inl NotSquare"
    using determinant_cases [of real_arith ?N] by (simp add: Matrix_of_def)
  have 2: "snd (determinant real_arith ?A) = Inr 5"
    using determinant_cases [of real_arith ?A] by (simp add: Matrix_of_def cell_def)
  have 3: "snd (determinant real_arith ?B) = Inr 10"
    using determinant_cases [of real_arith ?B] by (simp add: Matrix_of_def cell_def)
  have C: "rows ?C = cols ?C \<and> 3 \<le> rows ?C \<and> well_formed ?C" "rows ?C = 3"
    by (simp_all add: Matrix_of_def well_formed_def)
  have pc: "map (pivot_value real_arith 3 ?C) [0, 1, 2] = [4, 2, 2]"
    "map (pivot_row real_arith 3 ?C) [0, 1, 2] = [1, 1, 2]"
    by code_simp+
  have D: "rows ?D = cols ?D \<and> 3 \<le> rows ?D \<and> well_formed ?D" "rows ?D = 3"
    by (simp_all add: Matrix_of_def well_formed_def)
  have "fless real_arith (fabs real_arith (pivot_value real_arith 3 ?D 2)) (feps real_arith)"
    by code_simp
  then have pd: "\<exists>i<3. fless real_arith (fabs real_arith (pivot_value real_arith 3 ?D i)) (feps real_arith)"
    by (intro exI [of _ 2]) simp
  have upt3: "[0..<3] = [0, 1, 2]" by (simp add: upt_conv_Cons)
  from pc have pv: "pivot_value real_arith 3 ?C 0 = 4" "pivot_value real_arith 3 ?C 1 = 2"
    "pivot_value real_arith 3 ?C 2 = 2"
    "pivot_row real_arith 3 ?C 0 = 1" "pivot_row real_arith 3 ?C 1 = 1" "pivot_row real_arith 3 ?C 2 = 2"
    by simp_all
  have nc: "\<not> (\<exists>i<3. fless real_arith (fabs real_arith (pivot_value real_arith 3 ?C i)) (feps real_arith))"
  proof
    assume "\<exists>i<3. fless real_arith (fabs real_arith (pivot_value real_arith 3 ?C i)) (feps real_arith)"
    then obtain i where i: "i < 3"
      "fless real_arith (fabs real_arith (pivot_value real_arith 3 ?C i)) (feps real_arith)" by blast
    from i(1) consider "i = 0" | "i = 1" | "i = 2" by linarith
    then show False using pv i(2) by cases simp_all
  qed
  note at_C = determinant_cases [of real_arith ?C 3 ?C]
  from at_C C(1)
  have "snd (determinant real_arith ?C) =
          Inr (if \<exists>i<3. fless real_arith (fabs real_arith (pivot_value real_arith 3 ?C i)) (feps real_arith)
               then fzero real_arith else pivot_product real_arith 3 ?C)"
    unfolding C(2) by blast
  moreover from at_C have "pivot_product real_arith 3 ?C =
       (- 1) ^ length (filter (\<lambda>i. pivot_row real_arith 3 ?C i \<noteq> i) [0..<3])
       * prod_list (map (pivot_value real_arith 3 ?C) [0..<3])"
    by blast
  ultimately have 4: "snd (determinant real_arith ?C) = Inr (- 16)"
    using nc pv by (simp add: upt3)
  from determinant_cases [of real_arith ?D 3 ?D] D(1)
  have "snd (determinant real_arith ?D) =
          Inr (if \<exists>i<3. fless real_arith (fabs real_arith (pivot_value real_arith 3 ?D i)) (feps real_arith)
               then fzero real_arith else pivot_product real_arith 3 ?D)"
    unfolding D(2) by blast
  with pd have 5: "snd (determinant real_arith ?D) = Inr 0" by simp
  have 6: "fst (determinant real_arith ?C) = ?C"
    using at_C by blast
  from at_C C(1) strict_order_real
  have "\<forall>i<3. \<forall>k. i \<le> k \<and> k < 3 \<longrightarrow>
      \<not> fless real_arith (fabs real_arith (pivot_value real_arith 3 ?C i))
           (fabs real_arith (cell (eliminated real_arith 3 ?C i) k i))"
    unfolding C(2) by blast
  then have 7: "\<not> fless real_arith (fabs real_arith (pivot_value real_arith 3 ?C 0))
      (fabs real_arith (cell ?C 2 0))"
    by force
  from 1 2 3 4 5 6 7 pc(2) show ?thesis by blast
qed

section \<open>Matrix: dimensions of the operators\<close>

lemma dims_Matrix_transpose [simp]:
  "rows (Matrix_transpose A m) = cols m" "cols (Matrix_transpose A m) = rows m"
proof -
  let ?P = "\<lambda>s :: 'a Matrix. rows s = cols m \<and> cols s = rows m"
  have "?P (Matrix_transpose A m)"
    unfolding Matrix_transpose_def
  proof (rule fold_preserves [where P = ?P])
    fix x and s :: "'a Matrix"
    assume "?P s"
    then show "?P (fold (\<lambda>j result. set_cell result j x (cell m x j)) [0..<cols m] s)"
      using dims_fold_set_cell [of "\<lambda>j m'. j" "\<lambda>j m'. x" "\<lambda>j m'. cell m x j" "[0..<cols m]" s] by simp
  qed simp
  then show "rows (Matrix_transpose A m) = cols m" "cols (Matrix_transpose A m) = rows m" by simp_all
qed

lemma dims_Matrix_identity [simp]:
  "rows (Matrix_identity A n) = n" "cols (Matrix_identity A n) = n"
  using dims_fold_set_cell [of "\<lambda>j m'. j" "\<lambda>j m'. j" "\<lambda>j m'. fone A" "[0..<n]" "Matrix_new A n n"]
  by (simp_all add: Matrix_identity_def)

lemma dims_column_matrix [simp]:
  "rows (column_matrix A ys) = length ys" "cols (column_matrix A ys) = 1"
  using dims_fold_set_cell [of "\<lambda>j m'. j" "\<lambda>j m'. 0" "\<lambda>j m'. ys ! j" "[0..<length ys]"
      "Matrix_new A (length ys) 1"]
  by (simp_all add: column_matrix_def)

lemma dims_createDesignMatrix [simp]:
  "rows (createDesignMatrix A ds) = length ds" "cols (createDesignMatrix A ds) = 6"
  by (simp_all add: createDesignMatrix_def)

lemma length_createTargetVector [simp]: "length (createTargetVector A ds) = length ds"
proof -
  have "length (fold (\<lambda>i y. y @ [getTarget A (ds ! i)]) xs ys) = length ys + length xs" for xs ys
    by (induction xs arbitrary: ys) simp_all
  then show ?thesis by (simp add: createTargetVector_def)
qed

text \<open>In exact arithmetic, adding \<open>0 \<times> I\<close> changes nothing.\<close>

lemma Matrix_scale_zero:
  "Matrix_scale real_arith m 0 = fill real_arith (rows m) (cols m) (\<lambda>i j. 0)"
  by (simp add: Matrix_scale_def)

lemma Matrix_add_zero_fill:
  "Matrix_add real_arith (fill real_arith r c f) (fill real_arith r c (\<lambda>i j. 0))
     = Inr (fill real_arith r c f)"
proof -
  have "fill real_arith r c (\<lambda>i j. cell (fill real_arith r c f) i j
            + cell (fill real_arith r c (\<lambda>i j. 0)) i j) = fill real_arith r c f"
    by (rule fill_cong) (simp add: cell_fill)
  then show ?thesis by (simp add: Matrix_add_def)
qed

lemma ridge_zero: "ridge_equation real_arith ds 0 = normal_equation real_arith ds"
proof -
  let ?X = "createDesignMatrix real_arith ds"
  have mul: "Matrix_mul real_arith (Matrix_transpose real_arith ?X) ?X = Inr (fill real_arith 6 6
      (\<lambda>i j. foldl (\<lambda>sum k. sum + cell (Matrix_transpose real_arith ?X) i k * cell ?X k j) 0
                [0..<length ds]))"
    by (simp add: Matrix_mul_def)
  show ?thesis
    unfolding ridge_equation_def normal_equation_def Let_def mul
    by (simp add: Matrix_scale_zero Matrix_add_zero_fill)
qed

section \<open>Training\<close>

lemma Matrix_inverse_cases:
  "rows m = cols m \<Longrightarrow>
   Matrix_inverse A m = Inl Singular
   \<or> (\<exists>r. Matrix_inverse A m = Inr r \<and> rows r = rows m \<and> cols r = rows m)"
proof -
  assume sq: "rows m = cols m"
  have "gauss_jordan A (rows m) [0..<rows m] (augment A m) = Inl Singular
      \<or> gauss_jordan A (rows m) [0..<rows m] (augment A m)
          = Inr (reduced A (rows m) (augment A m) (rows m))"
    using gauss_jordan_reduced [of "augment A m" "rows m" "rows m" A]
    by (simp add: well_formed_augment)
  with sq show ?thesis
    by (auto simp: Matrix_inverse_def right_half_def Let_def)
qed

lemma Matrix_mul_dims:
  "cols a = rows b \<Longrightarrow> \<exists>p. Matrix_mul A a b = Inr p \<and> rows p = rows a \<and> cols p = cols b"
  by (simp add: Matrix_mul_def)

text \<open>The pipeline of \<open>train\<close> fails with \<open>Singular\<close> or delivers a \<open>6 \<times> 1\<close> matrix.\<close>

lemma normal_equation_cases:
  "normal_equation A ds = Inl Singular
   \<or> (\<exists>theta. normal_equation A ds = Inr theta \<and> rows theta = 6 \<and> cols theta = 1)"
proof -
  let ?X = "createDesignMatrix A ds"
  let ?Xt = "Matrix_transpose A ?X"
  let ?y = "column_matrix A (createTargetVector A ds)"
  obtain XtX where XtX: "Matrix_mul A ?Xt ?X = Inr XtX" "rows XtX = 6" "cols XtX = 6"
    using Matrix_mul_dims [of ?Xt ?X A] by auto
  obtain Xty where Xty: "Matrix_mul A ?Xt ?y = Inr Xty" "rows Xty = 6" "cols Xty = 1"
    using Matrix_mul_dims [of ?Xt ?y A] by auto
  from Matrix_inverse_cases [of XtX A] XtX
  consider "Matrix_inverse A XtX = Inl Singular"
    | inv where "Matrix_inverse A XtX = Inr inv" "rows inv = 6" "cols inv = 6"
    by auto
  then show ?thesis
  proof cases
    case 1
    with XtX show ?thesis by (simp add: normal_equation_def)
  next
    case 2
    with Matrix_mul_dims [of inv Xty A] Xty XtX show ?thesis
      by (auto simp: normal_equation_def)
  qed
qed

lemma ridge_equation_cases:
  "ridge_equation A ds lam = Inl Singular
   \<or> (\<exists>theta. ridge_equation A ds lam = Inr theta \<and> rows theta = 6 \<and> cols theta = 1)"
proof -
  let ?X = "createDesignMatrix A ds"
  let ?Xt = "Matrix_transpose A ?X"
  let ?y = "column_matrix A (createTargetVector A ds)"
  obtain XtX where XtX: "Matrix_mul A ?Xt ?X = Inr XtX" "rows XtX = 6" "cols XtX = 6"
    using Matrix_mul_dims [of ?Xt ?X A] by auto
  obtain Xty where Xty: "Matrix_mul A ?Xt ?y = Inr Xty" "rows Xty = 6" "cols Xty = 1"
    using Matrix_mul_dims [of ?Xt ?y A] by auto
  obtain reg where
    reg: "Matrix_add A XtX (Matrix_scale A (Matrix_identity A (rows XtX)) lam) = Inr reg"
      "rows reg = 6" "cols reg = 6"
    using XtX by (simp add: Matrix_add_def Matrix_scale_def)
  from Matrix_inverse_cases [of reg A] reg
  consider "Matrix_inverse A reg = Inl Singular"
    | inv where "Matrix_inverse A reg = Inr inv" "rows inv = 6" "cols inv = 6"
    by auto
  then show ?thesis
  proof cases
    case 1
    with XtX reg show ?thesis by (simp add: ridge_equation_def)
  next
    case 2
    with Matrix_mul_dims [of inv Xty A] Xty XtX reg show ?thesis
      by (auto simp: ridge_equation_def)
  qed
qed

lemma extract_coefficients_ok:
  "\<forall>i \<in> set is. i < rows theta \<Longrightarrow> 0 < cols theta \<Longrightarrow>
   \<exists>lr'. extract_coefficients theta is lr = (lr', None)
        \<and> isTrained lr' = isTrained lr
        \<and> length (coefficients lr') = length (coefficients lr)"
proof (induction "is" arbitrary: lr)
  case Nil
  then show ?case by simp
next
  case (Cons i "is")
  then have "Matrix_at theta i 0 = Inr (data theta ! i ! 0)"
    by (simp add: Matrix_at_def)
  with Cons.IH [of "lr\<lparr>coefficients := (coefficients lr)[i := data theta ! i ! 0]\<rparr>"] Cons.prems
  show ?case by simp
qed

lemma squared_errors_loop_ok:
  "isTrained lr \<Longrightarrow> \<exists>s. squared_errors_loop A lr ds is acc = Inr s"
proof (induction "is" arbitrary: acc)
  case Nil
  then show ?case by simp
next
  case (Cons i "is")
  from Cons.prems obtain v where "predict_point A lr (ds ! i) = Inr v"
    by (auto simp: predict_point_def predict_def length_getFeatureVector)
  with Cons show ?case by (simp add: Let_def)
qed

lemma calculateRMSE_ok: "isTrained lr \<Longrightarrow> \<exists>r. calculateRMSE A lr ds = Inr r"
  using squared_errors_loop_ok [of lr A ds "[0..<length ds]" "fzero A"]
  by (auto simp: calculateRMSE_def)

lemma install_coefficients_ok:
  assumes "rows theta = 6" and "cols theta = 1"
  shows "\<exists>lr'. install_coefficients A lr ds theta = (lr', None) \<and> isTrained lr'
            \<and> six_coefficients lr'"
proof -
  from extract_coefficients_ok [of "[0..<6]" theta "lr\<lparr>coefficients := replicate 6 (fzero A)\<rparr>"] assms
  obtain lr1 where
    lr1: "extract_coefficients theta [0..<6] (lr\<lparr>coefficients := replicate 6 (fzero A)\<rparr>) = (lr1, None)"
    "length (coefficients lr1) = 6" by auto
  from calculateRMSE_ok [of "lr1\<lparr>isTrained := True\<rparr>" A ds]
  obtain r where "calculateRMSE A (lr1\<lparr>isTrained := True\<rparr>) ds = Inr r" by auto
  with lr1 show ?thesis
    by (simp add: install_coefficients_def six_coefficients_def)
qed

lemma train_unfold:
  "train A lr ds =
     (if ds = [] then (False, lr)
      else case normal_equation A ds of
             Inl e \<Rightarrow> (False, lr)
           | Inr theta \<Rightarrow> (True, fst (install_coefficients A lr ds theta)))"
proof -
  from normal_equation_cases [of A ds]
  consider "normal_equation A ds = Inl Singular"
    | theta where "normal_equation A ds = Inr theta" "rows theta = 6" "cols theta = 1"
    by blast
  then show ?thesis
  proof cases
    case 1
    then show ?thesis by (simp add: train_def)
  next
    case 2
    from install_coefficients_ok [OF 2(2,3), of A lr ds] 2(1) show ?thesis
      by (auto simp: train_def)
  qed
qed

lemma trainWithRegularization_unfold:
  "trainWithRegularization A lr ds lam =
     (if ds = [] then (False, lr)
      else case ridge_equation A ds lam of
             Inl e \<Rightarrow> (False, lr)
           | Inr theta \<Rightarrow> (True, fst (install_coefficients A lr ds theta)))"
proof -
  from ridge_equation_cases [of A ds lam]
  consider "ridge_equation A ds lam = Inl Singular"
    | theta where "ridge_equation A ds lam = Inr theta" "rows theta = 6" "cols theta = 1"
    by blast
  then show ?thesis
  proof cases
    case 1
    then show ?thesis by (simp add: trainWithRegularization_def)
  next
    case 2
    from install_coefficients_ok [OF 2(2,3), of A lr ds] 2(1) show ?thesis
      by (auto simp: trainWithRegularization_def)
  qed
qed

lemma train_success:
  assumes "fst (train A lr ds)"
  shows "isTrained (snd (train A lr ds)) \<and> six_coefficients (snd (train A lr ds))"
proof -
  from normal_equation_cases [of A ds]
  consider "normal_equation A ds = Inl Singular"
    | theta where "normal_equation A ds = Inr theta" "rows theta = 6" "cols theta = 1"
    by blast
  then show ?thesis
  proof cases
    case 1
    with assms show ?thesis by (simp add: train_unfold split: if_splits)
  next
    case 2
    from install_coefficients_ok [OF 2(2,3), of A lr ds] 2(1) assms show ?thesis
      by (auto simp: train_unfold split: if_splits)
  qed
qed

lemma gram_one_point:
  "Matrix_mul real_arith
      (Matrix_transpose real_arith (createDesignMatrix real_arith [DataPoint_new [] [] 1 0 0 0 0 0 2 0]))
      (createDesignMatrix real_arith [DataPoint_new [] [] 1 0 0 0 0 0 2 0])
   = Inr \<lparr>data = [[1, 0, 0, 0, 0, 0], [0, 0, 0, 0, 0, 0], [0, 0, 0, 0, 0, 0],
                  [0, 0, 0, 0, 0, 0], [0, 0, 0, 0, 0, 0], [0, 0, 0, 0, 0, 0]],
          rows = 6, cols = 6\<rparr>"
  by code_simp

lemma gram_one_point_singular:
  "Matrix_inverse real_arith
      \<lparr>data = [[1, 0, 0, 0, 0, 0], [0, 0, 0, 0, 0, 0], [0, 0, 0, 0, 0, 0],
                  [0, 0, 0, 0, 0, 0], [0, 0, 0, 0, 0, 0], [0, 0, 0, 0, 0, 0]],
          rows = 6, cols = 6\<rparr> = Inl Singular"
  by code_simp

text \<open>
  C5. In exact arithmetic, ridge training with \<open>\<lambda> = 0\<close> is ordinary training: on every
  dataset (empty or not) the two calls return the same flag and leave the same model,
  in particular the same coefficient vector.
\<close>

theorem ridge_zero_is_train:
  "trainWithRegularization real_arith lr ds 0 = train real_arith lr ds
   \<and> fst (trainWithRegularization real_arith lr ds 0) = fst (train real_arith lr ds)
   \<and> coefficients (snd (trainWithRegularization real_arith lr ds 0))
       = coefficients (snd (train real_arith lr ds))"
  by (simp add: train_def trainWithRegularization_def ridge_zero)

theorem ridge_zero_is_train_witness:
  "trainWithRegularization real_arith (LinearRegression_new real_arith)
       [DataPoint_new [] [] 1 0 0 0 0 0 2 0] 0
     = train real_arith (LinearRegression_new real_arith) [DataPoint_new [] [] 1 0 0 0 0 0 2 0]
   \<and> fst (train real_arith (LinearRegression_new real_arith)
            [DataPoint_new [] [] 1 0 0 0 0 0 2 0]) = False"
proof -
  let ?ds = "[DataPoint_new [] [] 1 0 0 0 0 0 2 0]"
  have "normal_equation real_arith ?ds = Inl Singular"
    by (simp add: normal_equation_def gram_one_point gram_one_point_singular)
  then have "fst (train real_arith (LinearRegression_new real_arith) ?ds) = False"
    by (simp add: train_def)
  with ridge_zero_is_train [of "LinearRegression_new real_arith" ?ds] show ?thesis
    by simp
qed

text \<open>
  C10. In every arithmetic, training is atomic on failure. When \<^verbatim>\<open>train\<close> or
  \<^verbatim>\<open>trainWithRegularization\<close> returns \<open>false\<close> the model is exactly what it was before
  the call: the trained flag, the coefficients and the statistics. This is the case on
  an empty dataset and when the inversion of the matrix fails with \<open>Singular\<close>, and
  these are the only ways training fails.
\<close>

theorem train_atomic_on_failure:
  "(\<not> fst (train A lr ds) \<longrightarrow> snd (train A lr ds) = lr)
   \<and> (\<not> fst (trainWithRegularization A lr ds lam) \<longrightarrow>
        snd (trainWithRegularization A lr ds lam) = lr)
   \<and> train A lr [] = (False, lr)
   \<and> trainWithRegularization A lr [] lam = (False, lr)
   \<and> (Matrix_mul A (Matrix_transpose A (createDesignMatrix A ds)) (createDesignMatrix A ds) = Inr XtX
        \<and> Matrix_inverse A XtX = Inl Singular \<longrightarrow> train A lr ds = (False, lr))
   \<and> (Matrix_mul A (Matrix_transpose A (createDesignMatrix A ds)) (createDesignMatrix A ds) = Inr XtX
        \<and> Matrix_add A XtX (Matrix_scale A (Matrix_identity A (rows XtX)) lam) = Inr regularized
        \<and> Matrix_inverse A regularized = Inl Singular \<longrightarrow>
          trainWithRegularization A lr ds lam = (False, lr))
   \<and> (\<not> fst (train A lr ds) \<longleftrightarrow> ds = [] \<or> normal_equation A ds = Inl Singular)
   \<and> (\<not> fst (trainWithRegularization A lr ds lam) \<longleftrightarrow>
        ds = [] \<or> ridge_equation A ds lam = Inl Singular)"
proof (intro conjI impI)
  show "snd (train A lr ds) = lr" if "\<not> fst (train A lr ds)"
    using that by (auto simp: train_unfold split: if_splits sum.splits)
  show "snd (trainWithRegularization A lr ds lam) = lr"
    if "\<not> fst (trainWithRegularization A lr ds lam)"
    using that by (auto simp: trainWithRegularization_unfold split: if_splits sum.splits)
  show "train A lr [] = (False, lr)"
    by (simp add: train_def)
  show "trainWithRegularization A lr [] lam = (False, lr)"
    by (simp add: trainWithRegularization_def)
  show "train A lr ds = (False, lr)"
    if "Matrix_mul A (Matrix_transpose A (createDesignMatrix A ds)) (createDesignMatrix A ds) = Inr XtX
        \<and> Matrix_inverse A XtX = Inl Singular"
    using that by (simp add: train_unfold normal_equation_def)
  show "trainWithRegularization A lr ds lam = (False, lr)"
    if "Matrix_mul A (Matrix_transpose A (createDesignMatrix A ds)) (createDesignMatrix A ds) = Inr XtX
        \<and> Matrix_add A XtX (Matrix_scale A (Matrix_identity A (rows XtX)) lam) = Inr regularized
        \<and> Matrix_inverse A regularized = Inl Singular"
    using that by (simp add: trainWithRegularization_unfold ridge_equation_def)
  show "\<not> fst (train A lr ds) \<longleftrightarrow> ds = [] \<or> normal_equation A ds = Inl Singular"
    using normal_equation_cases [of A ds]
    by (auto simp: train_unfold split: sum.splits)
  show "\<not> fst (trainWithRegularization A lr ds lam) \<longleftrightarrow>
      ds = [] \<or> ridge_equation A ds lam = Inl Singular"
    using ridge_equation_cases [of A ds lam]
    by (auto simp: trainWithRegularization_unfold split: sum.splits)
qed

theorem train_atomic_on_failure_witness:
  "train real_arith \<lparr>coefficients = [1, 2, 3, 4, 5, 6], isTrained = True, trainRMSE = 7,
           testRMSE = 0, rSquared = 0\<rparr> [DataPoint_new [] [] 1 0 0 0 0 0 2 0]
     = (False, \<lparr>coefficients = [1, 2, 3, 4, 5, 6], isTrained = True, trainRMSE = 7, testRMSE = 0,
                 rSquared = 0\<rparr>)
   \<and> trainWithRegularization real_arith \<lparr>coefficients = [1, 2, 3, 4, 5, 6], isTrained = True,
           trainRMSE = 7, testRMSE = 0, rSquared = 0\<rparr> [DataPoint_new [] [] 1 0 0 0 0 0 2 0] 0
     = (False, \<lparr>coefficients = [1, 2, 3, 4, 5, 6], isTrained = True, trainRMSE = 7, testRMSE = 0,
                 rSquared = 0\<rparr>)
   \<and> train real_arith \<lparr>coefficients = [1, 2, 3, 4, 5, 6], isTrained = True, trainRMSE = 7,
           testRMSE = 0, rSquared = 0\<rparr> []
     = (False, \<lparr>coefficients = [1, 2, 3, 4, 5, 6], isTrained = True, trainRMSE = 7, testRMSE = 0,
                 rSquared = 0\<rparr>)
   \<and> snd (train real_arith \<lparr>coefficients = [1, 2, 3, 4, 5, 6], isTrained = True, trainRMSE = 7,
           testRMSE = 0, rSquared = 0\<rparr> [DataPoint_new [] [] 1 0 0 0 0 0 2 0])
     = \<lparr>coefficients = [1, 2, 3, 4, 5, 6], isTrained = True, trainRMSE = 7, testRMSE = 0,
                 rSquared = 0\<rparr>"
proof -
  let ?lr = "\<lparr>coefficients = [1, 2, 3, 4, 5, 6 :: real], isTrained = True, trainRMSE = 7,
      testRMSE = 0, rSquared = 0\<rparr>"
  let ?ds = "[DataPoint_new [] [] 1 0 0 0 0 0 2 0]"
  let ?G = "\<lparr>data = [[1, 0, 0, 0, 0, 0], [0, 0, 0, 0, 0, 0], [0, 0, 0, 0, 0, 0],
                  [0, 0, 0, 0, 0, 0], [0, 0, 0, 0, 0, 0], [0, 0, 0, 0, 0, 0 :: real]],
          rows = 6, cols = 6\<rparr>"
  have reg: "Matrix_add real_arith ?G (Matrix_scale real_arith (Matrix_identity real_arith (rows ?G)) 0)
      = Inr ?G"
    by code_simp
  note facts = train_atomic_on_failure [of real_arith ?lr ?ds 0 ?G ?G]
  from facts gram_one_point gram_one_point_singular
  have 1: "train real_arith ?lr ?ds = (False, ?lr)" by blast
  from facts gram_one_point gram_one_point_singular reg
  have 2: "trainWithRegularization real_arith ?lr ?ds 0 = (False, ?lr)" by blast
  from facts have 3: "train real_arith ?lr [] = (False, ?lr)" by blast
  have "normal_equation real_arith ?ds = Inl Singular"
    by (simp add: normal_equation_def gram_one_point gram_one_point_singular)
  with facts have "\<not> fst (train real_arith ?lr ?ds)" by blast
  with facts have 4: "snd (train real_arith ?lr ?ds) = ?lr" by blast
  from 1 2 3 4 show ?thesis by simp
qed

section \<open>Scores\<close>

lemma predict_point_trained:
  "isTrained lr \<Longrightarrow> predict_point A lr p = Inr (prediction A lr p)"
  by (simp add: predict_point_def predict_def prediction_def length_getFeatureVector)

lemma squared_errors_loop_trained:
  "isTrained lr \<Longrightarrow>
   squared_errors_loop A lr ds is acc =
     Inr (foldl (fadd A) acc (map (\<lambda>i. squared_error A lr (ds ! i)) is))"
  by (induction "is" arbitrary: acc)
     (simp_all add: predict_point_trained Let_def squared_error_def)

lemma calculateRMSE_trained: "isTrained lr \<Longrightarrow> calculateRMSE A lr ds = Inr (rmse A lr ds)"
  using map_nth_all [of "squared_error A lr" ds]
  by (simp add: calculateRMSE_def squared_errors_loop_trained rmse_def)

lemma foldl_fadd_not_below_zero:
  assumes "sign_laws A"
  shows "\<not> fless A acc (fzero A) \<Longrightarrow> \<forall>x \<in> set xs. \<not> fless A x (fzero A) \<Longrightarrow>
         \<not> fless A (foldl (fadd A) acc xs) (fzero A)"
proof (induction xs arbitrary: acc)
  case Nil
  then show ?case by simp
next
  case (Cons x xs)
  from assms Cons.prems have "\<not> fless A (fadd A acc x) (fzero A)"
    unfolding sign_laws_def by simp
  with Cons show ?case by simp
qed

text \<open>The RMSE over a non-empty set is never below zero.\<close>

lemma rmse_not_below_zero:
  assumes laws: "sign_laws A" and ne: "ds \<noteq> []"
  shows "\<not> fless A (rmse A lr ds) (fzero A)"
proof -
  from laws have zero: "\<not> fless A (fzero A) (fzero A)"
    and square: "\<And>x. \<not> fless A (fmul A x x) (fzero A)"
    and quotient: "\<And>x n. \<not> fless A x (fzero A) \<Longrightarrow> 0 < n \<Longrightarrow>
        \<not> fless A (fdiv A x (ffrom_size A n)) (fzero A)"
    and root: "\<And>x. \<not> fless A x (fzero A) \<Longrightarrow> \<not> fless A (fsqrt A x) (fzero A)"
    unfolding sign_laws_def by blast+
  have "\<forall>x \<in> set (map (squared_error A lr) ds). \<not> fless A x (fzero A)"
    using square by (simp add: squared_error_def)
  with foldl_fadd_not_below_zero [OF laws zero]
  have "\<not> fless A (foldl (fadd A) (fzero A) (map (squared_error A lr) ds)) (fzero A)"
    by blast
  with ne show ?thesis
    unfolding rmse_def by (intro root quotient) simp_all
qed









lemma MAPE_fold:
  "fold (\<lambda>i (s, c). if P i then (let e = f i in (s + e, c + 1)) else (s, c)) is (s0, c0) =
     (s0 + (\<Sum>i\<leftarrow>filter P is. f i), c0 + length (filter P is))" for s0 :: real and c0 :: nat
  by (induction "is" arbitrary: s0 c0) (simp_all add: Let_def)

lemma calculateMAPE_ok:
  assumes "length actual = length predicted" and "actual \<noteq> []"
  shows "calculateMAPE real_arith actual predicted =
     Inr (if nonzero_indices actual = [] then 0
          else (\<Sum>i\<leftarrow>nonzero_indices actual. \<bar>(actual ! i - predicted ! i) / actual ! i\<bar> * 100)
                 / real (length (nonzero_indices actual)))"
proof -
  have guard: "\<not> (length actual \<noteq> length predicted \<or> actual = [])"
    using assms by simp
  show ?thesis
    unfolding calculateMAPE_def if_not_P [OF guard] real_arith_simps MAPE_fold
    by (simp add: nonzero_indices_def)
qed

text \<open>
  C9. In exact arithmetic, for two non-empty sequences of equal length,
  \<^verbatim>\<open>calculateMAPE\<close> is the mean of \<open>\<bar>(actual - predicted) / actual\<bar> * 100\<close> over the
  indices whose actual value is not 0: the other entries enter neither the sum nor the
  count. When every actual value is 0 the result is 0.
\<close>

theorem mape_value:
  "(length actual = length predicted \<and> actual \<noteq> [] \<longrightarrow>
      calculateMAPE real_arith actual predicted =
        Inr (if nonzero_indices actual = [] then 0
             else (\<Sum>i\<leftarrow>nonzero_indices actual. \<bar>(actual ! i - predicted ! i) / actual ! i\<bar> * 100)
                    / real (length (nonzero_indices actual)))
      \<and> ((\<forall>a \<in> set actual. a = 0) \<longrightarrow> calculateMAPE real_arith actual predicted = Inr 0))
   \<and> set (nonzero_indices actual) = {i. i < length actual \<and> actual ! i \<noteq> 0}"
proof (intro conjI impI)
  assume a: "length actual = length predicted \<and> actual \<noteq> []"
  then show eq: "calculateMAPE real_arith actual predicted =
        Inr (if nonzero_indices actual = [] then 0
             else (\<Sum>i\<leftarrow>nonzero_indices actual. \<bar>(actual ! i - predicted ! i) / actual ! i\<bar> * 100)
                    / real (length (nonzero_indices actual)))"
    by (simp add: calculateMAPE_ok)
  show "calculateMAPE real_arith actual predicted = Inr 0" if "\<forall>a \<in> set actual. a = 0"
  proof -
    from that have "nonzero_indices actual = []"
      by (simp add: nonzero_indices_def filter_empty_conv)
    with eq show ?thesis by simp
  qed
next
  show "set (nonzero_indices actual) = {i. i < length actual \<and> actual ! i \<noteq> 0}"
    by (auto simp: nonzero_indices_def)
qed

theorem mape_value_witness:
  "calculateMAPE real_arith [1, 0, 2] [2, 5, 2] = Inr 50
   \<and> calculateMAPE real_arith [0, 0] [1, 2] = Inr 0"
proof -
  have upt3: "[0..<3] = [0, 1, 2]" by (simp add: upt_conv_Cons)
  have n: "nonzero_indices [1, 0, 2] = [0, 2]"
    by (simp add: nonzero_indices_def upt3)
  have h1: "length [1, 0, 2 :: real] = length [2, 5, 2 :: real] \<and> [1, 0, 2 :: real] \<noteq> []"
    and h2: "length [0, 0 :: real] = length [1, 2 :: real] \<and> [0, 0 :: real] \<noteq> []"
    and z: "\<forall>a \<in> set [0, 0 :: real]. a = 0"
    by simp_all
  from mape_value [of "[1, 0, 2]" "[2, 5, 2]"] h1
  have "calculateMAPE real_arith [1, 0, 2] [2, 5, 2] =
        Inr (if nonzero_indices [1, 0, 2] = [] then 0
             else (\<Sum>i\<leftarrow>nonzero_indices [1, 0, 2].
                      \<bar>([1, 0, 2] ! i - [2, 5, 2] ! i) / [1, 0, 2] ! i\<bar> * 100)
                    / real (length (nonzero_indices [1, 0, 2])))"
    by blast
  then have 1: "calculateMAPE real_arith [1, 0, 2] [2, 5, 2] = Inr 50"
    unfolding n by simp
  from mape_value [of "[0, 0]" "[1, 2]"] h2 z
  have 2: "calculateMAPE real_arith [0, 0] [1, 2] = Inr 0"
    by blast
  from 1 2 show ?thesis by simp
qed

section \<open>Cross-validation\<close>

lemma size_t_of_int_nat: "k < 2 ^ 64 \<Longrightarrow> size_t_of_int (int k) = k"
proof -
  assume "k < 2 ^ 64"
  then have "int k < 2 ^ 64" by (metis of_nat_less_iff of_nat_numeral of_nat_power)
  then have "int k mod 2 ^ 64 = int k" by simp
  then show ?thesis by (simp add: size_t_of_int_def)
qed

lemma split_fold_filter:
  "fold (\<lambda>i (trainSet, validSet).
             if c1 i then (trainSet, addDataPoint validSet (ds ! i))
             else if c2 i then (trainSet, addDataPoint validSet (ds ! i))
             else (addDataPoint trainSet (ds ! i), validSet)) xs (t, v)
   = (t @ map ((!) ds) (filter (\<lambda>i. \<not> (c1 i \<or> c2 i)) xs),
      v @ map ((!) ds) (filter (\<lambda>i. c1 i \<or> c2 i) xs))"
  by (induction xs arbitrary: t v) (simp_all add: addDataPoint_def)

lemma upt_three: "a \<le> b \<Longrightarrow> b \<le> n \<Longrightarrow> [0..<n] = [0..<a] @ [a..<b] @ [b..<n]"
proof -
  assume ab: "a \<le> b" and bn: "b \<le> n"
  have "[0..<n] = [0..<b] @ [b..<n]"
    using upt_add_eq_append [of 0 b "n - b"] bn by simp
  moreover have "[0..<b] = [0..<a] @ [a..<b]"
    using upt_add_eq_append [of 0 a "b - a"] ab by simp
  ultimately show ?thesis by simp
qed

lemma filter_interval:
  assumes "a \<le> b" and "b \<le> n"
  shows "filter (\<lambda>i. a \<le> i \<and> i < b) [0..<n] = [a..<b]"
    and "filter (\<lambda>i. \<not> (a \<le> i \<and> i < b)) [0..<n] = [0..<a] @ [b..<n]"
proof -
  have 1: "filter (\<lambda>i. a \<le> i \<and> i < b) [0..<a] = []" "filter (\<lambda>i. a \<le> i \<and> i < b) [b..<n] = []"
    "filter (\<lambda>i. a \<le> i \<and> i < b) [a..<b] = [a..<b]"
    by (simp_all add: filter_empty_conv filter_id_conv)
  have 2: "filter (\<lambda>i. \<not> (a \<le> i \<and> i < b)) [0..<a] = [0..<a]"
    "filter (\<lambda>i. \<not> (a \<le> i \<and> i < b)) [b..<n] = [b..<n]"
    "filter (\<lambda>i. \<not> (a \<le> i \<and> i < b)) [a..<b] = []"
    using assms by (auto simp: filter_empty_conv filter_id_conv)
  show "filter (\<lambda>i. a \<le> i \<and> i < b) [0..<n] = [a..<b]"
    unfolding upt_three [OF assms] filter_append 1 by simp
  show "filter (\<lambda>i. \<not> (a \<le> i \<and> i < b)) [0..<n] = [0..<a] @ [b..<n]"
    unfolding upt_three [OF assms] filter_append 2 by simp
qed

lemma map_nth_slice: "b \<le> length xs \<Longrightarrow> map ((!) xs) [a..<b] = take (b - a) (drop a xs)"
  by (intro nth_equalityI) (auto simp: min_def)

text \<open>The two sets of one fold, as slices of the dataset.\<close>

lemma split_fold_slices:
  assumes k: "k < 2 ^ 64" and f: "f < k" and fit: "k * fs \<le> length ds"
  shows "split_fold ds (int k) fs (int f) =
     (if f < k - 1
      then (take (f * fs) ds @ drop ((f + 1) * fs) ds, take fs (drop (f * fs) ds))
      else (take (f * fs) ds, drop (f * fs) ds))"
proof -
  let ?n = "length ds"
  from k f have sf: "size_t_of_int (int f) = f" and sf1: "size_t_of_int (int f + 1) = f + 1"
    using size_t_of_int_nat [of f] size_t_of_int_nat [of "f + 1"] by (simp_all add: add.commute)
  have ab: "f * fs \<le> (f + 1) * fs" by simp
  have "(f + 1) * fs \<le> k * fs" using f by (intro mult_le_mono1) simp
  with fit have bn: "(f + 1) * fs \<le> ?n" by simp
  with ab have an: "f * fs \<le> ?n" by linarith
  have t0: "map ((!) ds) [0..<f * fs] = take (f * fs) ds"
    using map_nth_slice [of "f * fs" ds 0] an by simp
  show ?thesis
  proof (cases "f < k - 1")
    case True
    then have c: "int f < int k - 1" "int f \<noteq> int k - 1" by linarith+
    have V: "((f * fs \<le> i \<and> i < (f + 1) * fs \<and> int f < int k - 1)
                \<or> (int f = int k - 1 \<and> f * fs \<le> i))
           \<longleftrightarrow> (f * fs \<le> i \<and> i < (f + 1) * fs)" for i
      using c by auto
    have v: "map ((!) ds) [f * fs..<(f + 1) * fs] = take fs (drop (f * fs) ds)"
      using map_nth_slice [of "(f + 1) * fs" ds "f * fs"] bn by simp
    have t1: "map ((!) ds) [(f + 1) * fs..<?n] = drop ((f + 1) * fs) ds"
      using map_nth_slice [of ?n ds "(f + 1) * fs"] by simp
    have "split_fold ds (int k) fs (int f) =
        (map ((!) ds) ([0..<f * fs] @ [(f + 1) * fs..<?n]), map ((!) ds) [f * fs..<(f + 1) * fs])"
      unfolding split_fold_def split_fold_filter sf sf1 V filter_interval [OF ab bn]
      by simp
    with True show ?thesis
      unfolding map_append t0 t1 v by simp
  next
    case False
    with f have c: "int f = int k - 1" by linarith
    have V: "((f * fs \<le> i \<and> i < (f + 1) * fs \<and> int f < int k - 1)
                \<or> (int f = int k - 1 \<and> f * fs \<le> i))
           \<longleftrightarrow> (f * fs \<le> i \<and> (i < ?n \<or> ?n \<le> i))" for i
      using c by auto
    have fl: "filter (\<lambda>i. f * fs \<le> i \<and> (i < ?n \<or> ?n \<le> i)) [0..<?n]
               = filter (\<lambda>i. f * fs \<le> i \<and> i < ?n) [0..<?n]"
         "filter (\<lambda>i. \<not> (f * fs \<le> i \<and> (i < ?n \<or> ?n \<le> i))) [0..<?n]
               = filter (\<lambda>i. \<not> (f * fs \<le> i \<and> i < ?n)) [0..<?n]"
      by (rule filter_cong; simp)+
    have v: "map ((!) ds) [f * fs..<?n] = drop (f * fs) ds"
      using map_nth_slice [of ?n ds "f * fs"] by simp
    have "split_fold ds (int k) fs (int f) =
        (map ((!) ds) ([0..<f * fs] @ [?n..<?n]), map ((!) ds) [f * fs..<?n])"
      unfolding split_fold_def split_fold_filter sf sf1 V fl filter_interval [OF an le_refl]
      by simp
    with False show ?thesis
      unfolding map_append t0 v by simp
  qed
qed

lemma foldSets_slices:
  assumes "0 < k" and "k < 2 ^ 64"
  shows "foldSets ds (int k) =
     map (\<lambda>f. if f < k - 1
              then (take (f * (length ds div k)) ds @ drop ((f + 1) * (length ds div k)) ds,
                    take (length ds div k) (drop (f * (length ds div k)) ds))
              else (take (f * (length ds div k)) ds, drop (f * (length ds div k)) ds))
       [0..<k]"
proof -
  have fit: "k * (length ds div k) \<le> length ds" by simp
  show ?thesis
    unfolding foldSets_def size_t_of_int_nat [OF assms(2)] nat_int map_map comp_def
    by (rule map_cong [OF refl]) (simp add: split_fold_slices [OF assms(2) _ fit])
qed

lemma concat_slices:
  "concat (map (\<lambda>f. take fs (drop (f * fs) ds)) [0..<j]) = take (j * fs) ds"
proof (induction j)
  case 0
  then show ?case by simp
next
  case (Suc j)
  have "take (j * fs) ds @ take fs (drop (j * fs) ds) = take (j * fs + fs) ds"
    by (simp add: take_add)
  with Suc show ?case by (simp add: add.commute)
qed

text \<open>The validation sets, in order, make up the dataset: no overlap, no omission.\<close>

lemma concat_validation_sets:
  assumes "0 < k" and "k < 2 ^ 64"
  shows "concat (map snd (foldSets ds (int k))) = ds"
proof -
  let ?fs = "length ds div k"
  from assms(1) have upt: "[0..<k] = [0..<k - 1] @ [k - 1]"
    by (metis Suc_diff_1 upt_Suc_append le0)
  have "map snd (foldSets ds (int k)) =
      map (\<lambda>f. take ?fs (drop (f * ?fs) ds)) [0..<k - 1] @ [drop ((k - 1) * ?fs) ds]"
    unfolding foldSets_slices [OF assms] map_map comp_def
    by (subst upt) simp
  then show ?thesis
    by (simp add: concat_slices)
qed

lemma validation_sets_nonempty:
  assumes "0 < k" and "k < 2 ^ 64" and "k \<le> length ds"
  shows "\<forall>(trainSet, validSet) \<in> set (foldSets ds (int k)). validSet \<noteq> []"
proof -
  let ?fs = "length ds div k"
  from assms have fs: "0 < ?fs" by (simp add: div_greater_zero_iff)
  have fit: "k * ?fs \<le> length ds" by simp
  have "f * ?fs < length ds" if "f < k" for f
  proof -
    from that have "(f + 1) * ?fs \<le> k * ?fs" by (intro mult_le_mono1) simp
    moreover have "(f + 1) * ?fs = f * ?fs + ?fs" by simp
    ultimately show ?thesis using fit fs by linarith
  qed
  then have "\<forall>f<k. \<not> length ds \<le> f * ?fs" by (simp add: not_le)
  then show ?thesis
    unfolding foldSets_slices [OF assms(1,2)] using fs
    by (auto split: if_splits)
qed

lemma folds_loop_rmses:
  "folds_loop A ds folds fs xs acc =
     Inr (acc @ concat (map (\<lambda>fld. case split_fold ds folds fs fld of
                                (trainSet, validSet) \<Rightarrow>
                                  (case train A (LinearRegression_new A) trainSet of
                                     (True, tempModel) \<Rightarrow> [rmse A tempModel validSet]
                                   | (False, tempModel) \<Rightarrow> [])) xs))"
proof (induction xs arbitrary: acc)
  case Nil
  then show ?case by simp
next
  case (Cons fld xs)
  obtain t v where tv: "split_fold ds folds fs fld = (t, v)" by (cases "split_fold ds folds fs fld")
  obtain ok m where tr: "train A (LinearRegression_new A) t = (ok, m)"
    by (cases "train A (LinearRegression_new A) t")
  show ?case
  proof (cases ok)
    case True
    with tr train_success [of A "LinearRegression_new A" t] have "isTrained m" by simp
    then have "calculateRMSE A m v = Inr (rmse A m v)" by (rule calculateRMSE_trained)
    with True tv tr Cons.IH show ?thesis by simp
  next
    case False
    with tv tr Cons.IH show ?thesis by simp
  qed
qed

lemma crossValidate_mean:
  assumes "1 \<le> folds" and "folds \<le> int (length ds)" and "folds < 2 ^ 31"
  shows "crossValidate A ds folds =
     Inr (if successful_fold_rmses A ds folds = [] then fneg A (fone A)
          else fdiv A (foldl (fadd A) (fzero A) (successful_fold_rmses A ds folds))
                 (ffrom_size A (length (successful_fold_rmses A ds folds))))"
proof -
  define k where "k = nat folds"
  with assms have k: "folds = int k" "0 < k" "k \<le> length ds" "k < 2 ^ 64"
    by simp_all
  have rs: "folds_loop A ds folds (length ds div size_t_of_int folds) (map int [0..<nat folds]) []
      = Inr (successful_fold_rmses A ds folds)"
    unfolding folds_loop_rmses successful_fold_rmses_def foldSets_def
    by (simp add: comp_def case_prod_unfold)
  have g: "\<not> length ds < size_t_of_int folds" "size_t_of_int folds \<noteq> 0"
    using k by (simp_all add: size_t_of_int_nat)
  show ?thesis
    unfolding crossValidate_def Let_def rs if_not_P [OF g(1)] if_not_P [OF g(2)]
    by simp
qed

lemma successful_fold_rmses_not_below_zero:
  assumes laws: "sign_laws A"
    and nonempty: "\<forall>(trainSet, validSet) \<in> set (foldSets ds folds). validSet \<noteq> []"
  shows "\<forall>r \<in> set (successful_fold_rmses A ds folds). \<not> fless A r (fzero A)"
  using nonempty rmse_not_below_zero [OF laws]
  by (fastforce simp: successful_fold_rmses_def split: prod.splits bool.splits)

lemma upt_5: "[0..<5] = [0, 1, 2, 3, 4]"
  by (simp add: upt_conv_Cons)

text \<open>
  C1. With \<open>k = 5\<close> a dataset of 25 examples is cut into exactly five contiguous
  validation folds of size 5. A dataset of 23 examples is cut with fold size
  \<open>\<lfloor>23 / 5\<rfloor> = 4\<close>: folds 0 to 3 are the slices \<open>[0, 4)\<close>, \<open>[4, 8)\<close>, \<open>[8, 12)\<close>,
  \<open>[12, 16)\<close> of size 4 and the last fold is \<open>[16, 23)\<close>, of size 7. In both cases the
  training set of a fold is the rest of the dataset, and the validation folds put end to
  end are the dataset: no overlap, no omission.
\<close>

theorem crossValidate_folds:
  "(length ds = 25 \<longrightarrow>
      foldSets ds 5 =
        [(drop 5 ds, take 5 ds),
         (take 5 ds @ drop 10 ds, take 5 (drop 5 ds)),
         (take 10 ds @ drop 15 ds, take 5 (drop 10 ds)),
         (take 15 ds @ drop 20 ds, take 5 (drop 15 ds)),
         (take 20 ds, drop 20 ds)]
      \<and> map length (map snd (foldSets ds 5)) = [5, 5, 5, 5, 5])
   \<and> (length ds = 23 \<longrightarrow>
        foldSets ds 5 =
          [(drop 4 ds, take 4 ds),
           (take 4 ds @ drop 8 ds, take 4 (drop 4 ds)),
           (take 8 ds @ drop 12 ds, take 4 (drop 8 ds)),
           (take 12 ds @ drop 16 ds, take 4 (drop 12 ds)),
           (take 16 ds, drop 16 ds)]
        \<and> map length (map snd (foldSets ds 5)) = [4, 4, 4, 4, 7])
   \<and> concat (map snd (foldSets ds 5)) = ds"
proof -
  have five: "(5 :: int) = int 5" "(0 :: nat) < 5" "(5 :: nat) < 2 ^ 64" by simp_all
  note slices = foldSets_slices [OF five(2,3), of ds, folded five(1)]
  have a: "foldSets ds 5 =
        [(drop 5 ds, take 5 ds),
         (take 5 ds @ drop 10 ds, take 5 (drop 5 ds)),
         (take 10 ds @ drop 15 ds, take 5 (drop 10 ds)),
         (take 15 ds @ drop 20 ds, take 5 (drop 15 ds)),
         (take 20 ds, drop 20 ds)]" if "length ds = 25"
    unfolding slices that upt_5 by simp
  have b: "foldSets ds 5 =
          [(drop 4 ds, take 4 ds),
           (take 4 ds @ drop 8 ds, take 4 (drop 4 ds)),
           (take 8 ds @ drop 12 ds, take 4 (drop 8 ds)),
           (take 12 ds @ drop 16 ds, take 4 (drop 12 ds)),
           (take 16 ds, drop 16 ds)]" if "length ds = 23"
    unfolding slices that upt_5 by simp
  have c: "concat (map snd (foldSets ds 5)) = ds"
    using concat_validation_sets [OF five(2,3), of ds] by simp
  have a': "map length (map snd (foldSets ds 5)) = [5, 5, 5, 5, 5]" if "length ds = 25"
    unfolding a [OF that] using that by simp
  have b': "map length (map snd (foldSets ds 5)) = [4, 4, 4, 4, 7]" if "length ds = 23"
    unfolding b [OF that] using that by simp
  from a a' b b' c show ?thesis by blast
qed

theorem crossValidate_folds_witness:
  "map length (map snd (foldSets (replicate 25 (DataPoint_new [] [] 1 2 3 4 5 6 7 8)) 5))
     = [5, 5, 5, 5, 5]
   \<and> map length (map snd (foldSets (replicate 23 (DataPoint_new [] [] 1 2 3 4 5 6 7 8)) 5))
     = [4, 4, 4, 4, 7]
   \<and> map length (map fst (foldSets (replicate 23 (DataPoint_new [] [] 1 2 3 4 5 6 7 8)) 5))
     = [19, 19, 19, 19, 16]"
proof -
  let ?p = "DataPoint_new [] [] 1 2 3 4 5 6 7 8"
  have l: "length (replicate 25 ?p) = 25" "length (replicate 23 ?p) = 23" by simp_all
  from crossValidate_folds [of "replicate 25 ?p"] l(1)
  have 1: "map length (map snd (foldSets (replicate 25 ?p) 5)) = [5, 5, 5, 5, 5]" by blast
  from crossValidate_folds [of "replicate 23 ?p"] l(2)
  have 2: "map length (map snd (foldSets (replicate 23 ?p) 5)) = [4, 4, 4, 4, 7]"
    and f: "foldSets (replicate 23 ?p) 5 =
          [(drop 4 (replicate 23 ?p), take 4 (replicate 23 ?p)),
           (take 4 (replicate 23 ?p) @ drop 8 (replicate 23 ?p), take 4 (drop 4 (replicate 23 ?p))),
           (take 8 (replicate 23 ?p) @ drop 12 (replicate 23 ?p), take 4 (drop 8 (replicate 23 ?p))),
           (take 12 (replicate 23 ?p) @ drop 16 (replicate 23 ?p), take 4 (drop 12 (replicate 23 ?p))),
           (take 16 (replicate 23 ?p), drop 16 (replicate 23 ?p))]"
    by blast+
  have 3: "map length (map fst (foldSets (replicate 23 ?p) 5)) = [19, 19, 19, 19, 16]"
    unfolding f by simp
  from 1 2 3 show ?thesis by simp
qed

text \<open>
  On 23 examples the validation folds do not have the sizes 5, 5, 5, 5, 3.
\<close>

theorem crossValidate_folds_counterexample:
  "map length (map snd (foldSets (replicate 23 (DataPoint_new [] [] 1 2 3 4 5 6 7 8)) 5))
     \<noteq> [5, 5, 5, 5, 3]"
  by code_simp

text \<open>
  C2. When the fold count, converted to \<^verbatim>\<open>size_t\<close>, exceeds the size of the dataset,
  \<^verbatim>\<open>crossValidate\<close> fails with \<open>TooManyFolds\<close>. For \<open>1 \<le> folds \<le> data.size()\<close> it
  raises nothing, in every arithmetic: a fold whose training fails leaves no RMSE, the
  result is the mean of the RMSEs of the other folds (their sum from the left, divided by
  their number), and \<^verbatim>\<open>-1.0\<close> when there is none. Each validation set is non-empty, so
  under the sign laws of the arithmetic no recorded RMSE is below zero, the mean of
  recorded RMSEs is not below zero and does not compare equal to \<^verbatim>\<open>-1.0\<close>: the result
  compares equal to \<^verbatim>\<open>-1.0\<close> exactly when no fold succeeded.
\<close>

theorem crossValidate_result:
  "(length ds < size_t_of_int folds \<longrightarrow> crossValidate A ds folds = Inl TooManyFolds)
   \<and> (1 \<le> folds \<and> folds \<le> int (length ds) \<and> folds < 2 ^ 31 \<longrightarrow>
        crossValidate A ds folds =
          Inr (if successful_fold_rmses A ds folds = [] then fneg A (fone A)
               else fdiv A (foldl (fadd A) (fzero A) (successful_fold_rmses A ds folds))
                      (ffrom_size A (length (successful_fold_rmses A ds folds))))
        \<and> (\<forall>(trainSet, validSet) \<in> set (foldSets ds folds). validSet \<noteq> [])
        \<and> (sign_laws A \<longrightarrow>
             (\<forall>r \<in> set (successful_fold_rmses A ds folds). \<not> fless A r (fzero A))
             \<and> (successful_fold_rmses A ds folds \<noteq> [] \<longrightarrow>
                  (\<exists>v. crossValidate A ds folds = Inr v \<and> \<not> fless A v (fzero A)))
             \<and> ((\<exists>v. crossValidate A ds folds = Inr v \<and> feq A v (fneg A (fone A)))
                  \<longleftrightarrow> successful_fold_rmses A ds folds = [])))"
proof (intro conjI impI)
  assume "length ds < size_t_of_int folds"
  then show "crossValidate A ds folds = Inl TooManyFolds"
    by (simp add: crossValidate_def)
next
  assume a: "1 \<le> folds \<and> folds \<le> int (length ds) \<and> folds < 2 ^ 31"
  let ?rs = "successful_fold_rmses A ds folds"
  let ?mean = "fdiv A (foldl (fadd A) (fzero A) ?rs) (ffrom_size A (length ?rs))"
  from a show cv: "crossValidate A ds folds = Inr (if ?rs = [] then fneg A (fone A) else ?mean)"
    by (simp add: crossValidate_mean)
  define k where "k = nat folds"
  with a have k: "folds = int k" "0 < k" "k \<le> length ds" "k < 2 ^ 64" by auto
  show ne: "\<forall>(trainSet, validSet) \<in> set (foldSets ds folds). validSet \<noteq> []"
    unfolding k(1) by (rule validation_sets_nonempty [OF k(2,4,3)])
  assume laws: "sign_laws A"
  then have zero: "\<not> fless A (fzero A) (fzero A)"
    and quotient: "\<And>x n. \<not> fless A x (fzero A) \<Longrightarrow> 0 < n \<Longrightarrow>
        \<not> fless A (fdiv A x (ffrom_size A n)) (fzero A)"
    and minus_one: "feq A (fneg A (fone A)) (fneg A (fone A))"
    and below: "\<And>x. feq A x (fneg A (fone A)) \<Longrightarrow> fless A x (fzero A)"
    unfolding sign_laws_def by blast+
  show nn: "\<forall>r \<in> set ?rs. \<not> fless A r (fzero A)"
    by (rule successful_fold_rmses_not_below_zero [OF laws ne])
  have mean: "\<not> fless A ?mean (fzero A)" if "?rs \<noteq> []"
    using that foldl_fadd_not_below_zero [OF laws zero nn] by (intro quotient) simp_all
  show "\<exists>v. crossValidate A ds folds = Inr v \<and> \<not> fless A v (fzero A)" if "?rs \<noteq> []"
    using that mean cv by simp
  show "(\<exists>v. crossValidate A ds folds = Inr v \<and> feq A v (fneg A (fone A))) \<longleftrightarrow> ?rs = []"
  proof (cases "?rs = []")
    case True
    with cv minus_one show ?thesis by simp
  next
    case False
    with mean below have "\<not> feq A ?mean (fneg A (fone A))" by blast
    with False cv show ?thesis by simp
  qed
qed

lemma train_one_point_fails:
  "train real_arith (LinearRegression_new real_arith) [DataPoint_new [] [] 1 0 0 0 0 0 2 0]
     = (False, LinearRegression_new real_arith)"
  by (simp add: train_def normal_equation_def gram_one_point gram_one_point_singular)

theorem crossValidate_result_witness:
  "crossValidate real_arith [] 5 = Inl TooManyFolds
   \<and> crossValidate real_arith
       [DataPoint_new [] [] 1 0 0 0 0 0 2 0, DataPoint_new [] [] 1 0 0 0 0 0 2 0] (- 1)
       = Inl TooManyFolds
   \<and> crossValidate real_arith
       [DataPoint_new [] [] 1 0 0 0 0 0 2 0, DataPoint_new [] [] 1 0 0 0 0 0 2 0] 2
       = Inr (- 1)
   \<and> foldSets [DataPoint_new [] [] 1 0 0 0 0 0 2 0, DataPoint_new [] [] 1 0 0 0 0 0 2 0] 2
       = [([DataPoint_new [] [] 1 0 0 0 0 0 2 0], [DataPoint_new [] [] 1 0 0 0 0 0 2 0]),
          ([DataPoint_new [] [] 1 0 0 0 0 0 2 0], [DataPoint_new [] [] 1 0 0 0 0 0 2 0])]"
proof -
  let ?p = "DataPoint_new [] [] 1 0 0 0 0 0 2 0"
  have s: "size_t_of_int 5 = 5" "size_t_of_int (- 1) = 18446744073709551615"
    by (simp_all add: size_t_of_int_def)
  from crossValidate_result [of "[]" 5 real_arith] s(1)
  have 1: "crossValidate real_arith [] 5 = Inl TooManyFolds" by simp
  from crossValidate_result [of "[?p, ?p]" "- 1" real_arith] s(2)
  have 2: "crossValidate real_arith [?p, ?p] (- 1) = Inl TooManyFolds" by simp
  have fs: "foldSets [?p, ?p] 2 = [([?p], [?p]), ([?p], [?p])]"
    by code_simp
  have rs: "successful_fold_rmses real_arith [?p, ?p] 2 = []"
    unfolding successful_fold_rmses_def fs by (simp add: train_one_point_fails)
  have h: "(1 :: int) \<le> 2 \<and> 2 \<le> int (length [?p, ?p]) \<and> (2 :: int) < 2 ^ 31" by simp
  from crossValidate_result [of "[?p, ?p]" 2 real_arith] h sign_laws_real
  have "(\<exists>v. crossValidate real_arith [?p, ?p] 2 = Inr v \<and> feq real_arith v (fneg real_arith (fone real_arith)))
      \<longleftrightarrow> successful_fold_rmses real_arith [?p, ?p] 2 = []"
    by blast
  with rs have 3: "crossValidate real_arith [?p, ?p] 2 = Inr (- 1)" by auto
  from 1 2 3 fs show ?thesis by simp
qed

text \<open>
  An empty dataset with five folds is refused: a failure that is not the
  zero-successful-folds value.
\<close>

theorem crossValidate_result_counterexample:
  "crossValidate real_arith [] 5 = Inl TooManyFolds"
  by (simp add: crossValidate_def size_t_of_int_def)

end
